theory Spec2Isabelle
  imports Complex_Main "HOL-Library.Char_ord" "HOL-Library.List_Lexorder" "HOL-Library.Log_Nat"
begin

section \<open>Haplotype conflict resolution of \<open>projects/tgbs.py\<close>\<close>

text \<open>
  The development embeds \<open>HaplotypeResolver\<close> and \<open>resolve\<close> of
  \<open>src/projects/tgbs.py\<close> (Python 2). Conventions:
  \<^item> Python strings are \<open>string\<close>; their order is the bytewise lexicographic one.
  \<^item> Python ints are \<open>int\<close>; counts are \<open>nat\<close>.
  \<^item> A Python float is a double; it is modelled by the rational number it denotes
    (\<open>rat\<close>). The options \<open>opts.missing\<close> and \<open>opts.het\<close> are such values. Every
    float operation of the code (the conversion of an int, the product, the quotient)
    rounds its exact result to the nearest double, ties to even (\<open>py_float\<close>);
    comparisons are exact, and \<open>round\<close> is Python 2's rounding of halves away from
    zero. The exponent range of doubles (overflow, subnormal numbers) is not modelled.
  \<^item> A \<open>Counter\<close> (a dict from keys to counts) is an association list with distinct
    keys, kept in first-insertion order; a Python \<open>set\<close> of strings is a list that
    enumerates it. Python 2 iterates dicts and sets in hash order, which is some fixed
    enumeration; the general statements below hold for every enumeration.
  \<^item> Every exception the code can raise is a value \<open>Inl e\<close> of \<open>error + 'a\<close>.
\<close>

subsection \<open>Errors\<close>

datatype error =
    UnboundLocalError
  | IndexError
  | ValueError
  | ZeroDivisionError
  | TypeError
  | PileupError

subsection \<open>\<open>Counter\<close>\<close>

type_synonym 'k counter = "('k \<times> nat) list"

text \<open>\<open>c.get(k, 0)\<close>\<close>

definition counter_get :: "'k counter \<Rightarrow> 'k \<Rightarrow> nat" where
  "counter_get c k = (case map_of c k of None \<Rightarrow> 0 | Some n \<Rightarrow> n)"

text \<open>\<open>c[k] = c.get(k, 0) + n\<close>: an existing key keeps its place, a new key goes last.\<close>

fun counter_add :: "'k counter \<Rightarrow> 'k \<Rightarrow> nat \<Rightarrow> 'k counter" where
  "counter_add [] k n = [(k, n)]"
| "counter_add ((k', m) # c) k n =
     (if k' = k then (k', m + n) # c else (k', m) # counter_add c k n)"

text \<open>\<open>Counter(iterable)\<close>: every element of the iterable counts once.\<close>

definition Counter :: "'k list \<Rightarrow> 'k counter" where
  "Counter xs = fold (\<lambda>k c. counter_add c k 1) xs []"

text \<open>\<open>c.update(other)\<close> for a mapping \<open>other\<close>: the counts are added.\<close>

definition Counter_update :: "'k counter \<Rightarrow> 'k counter \<Rightarrow> 'k counter" where
  "Counter_update c other = fold (\<lambda>(k, n) c'. counter_add c' k n) other c"

subsection \<open>Reading the genotype matrix\<close>

text \<open>\<open>row.split()\<close>: the maximal runs of non-whitespace characters.\<close>

definition is_space :: "char \<Rightarrow> bool" where
  "is_space ch = (ch \<in> set [CHR '' '', CHR 0x09, CHR 0x0A, CHR 0x0B, CHR 0x0C, CHR 0x0D])"

fun split_acc :: "string \<Rightarrow> string \<Rightarrow> string list" where
  "split_acc cur [] = (if cur = [] then [] else [cur])"
| "split_acc cur (ch # cs) =
     (if is_space ch then (if cur = [] then split_acc [] cs else cur # split_acc [] cs)
      else split_acc (cur @ [ch]) cs)"

definition py_split :: "string \<Rightarrow> string list" where
  "py_split row = split_acc [] row"

text \<open>\<open>int(pos)\<close> on a string without whitespace: an optional sign and at least one
  decimal digit; anything else raises \<open>ValueError\<close>.\<close>

definition is_digit :: "char \<Rightarrow> bool" where
  "is_digit ch = (CHR ''0'' \<le> ch \<and> ch \<le> CHR ''9'')"

definition digit_val :: "char \<Rightarrow> nat" where
  "digit_val ch = of_char ch - of_char CHR ''0''"

definition digits_val :: "string \<Rightarrow> nat" where
  "digits_val ds = foldl (\<lambda>acc ch. 10 * acc + digit_val ch) 0 ds"

definition py_digits :: "string \<Rightarrow> error + nat" where
  "py_digits ds = (if ds \<noteq> [] \<and> list_all is_digit ds then Inr (digits_val ds) else Inl ValueError)"

fun py_int :: "string \<Rightarrow> error + int" where
  "py_int [] = Inl ValueError"
| "py_int (ch # cs) =
     (if ch = CHR ''-'' then (case py_digits cs of Inl e \<Rightarrow> Inl e | Inr n \<Rightarrow> Inr (- int n))
      else if ch = CHR ''+'' then (case py_digits cs of Inl e \<Rightarrow> Inl e | Inr n \<Rightarrow> Inr (int n))
      else (case py_digits (ch # cs) of Inl e \<Rightarrow> Inl e | Inr n \<Rightarrow> Inr (int n)))"

text \<open>The nearest double of a rational number. For \<open>x > 0\<close>, \<open>float_exponent x\<close>
  is the \<open>e\<close> with \<open>2\<^sup>e \<le> x < 2\<^sup>e\<^sup>+\<^sup>1\<close>; a double of that binade is a multiple of
  \<open>2\<^sup>e\<^sup>-\<^sup>5\<^sup>2\<close> (53 significant bits), and \<open>x\<close> is rounded to the nearest multiple,
  a tie to the even one.\<close>

definition float_exponent :: "rat \<Rightarrow> int" where
  "float_exponent x = (if 1 \<le> x then bitlen \<lfloor>x\<rfloor> - 1 else - bitlen (\<lceil>1 / x\<rceil> - 1))"

definition round_half_even :: "rat \<Rightarrow> int" where
  "round_half_even q =
     (let f = \<lfloor>q\<rfloor>; r = q - of_int f
      in if r < 1 / 2 then f else if 1 / 2 < r then f + 1 else if even f then f else f + 1)"

definition py_float :: "rat \<Rightarrow> rat" where
  "py_float x =
     (if x = 0 then 0
      else (let u = 2 powi (float_exponent \<bar>x\<bar> - 52)
            in of_int (round_half_even (x / u)) * u))"

text \<open>\<open>int(round(x))\<close>, Python 2: halves are rounded away from zero.\<close>

definition py_round :: "rat \<Rightarrow> int" where
  "py_round x = (if 0 \<le> x then \<lfloor>x + 1 / 2\<rfloor> else \<lceil>x - 1 / 2\<rceil>)"

text \<open>\<open>a * 1. / b\<close> for ints \<open>a\<close> and \<open>b\<close>: \<open>a * 1.\<close> is the double of \<open>a\<close>,
  \<open>b\<close> is converted to a double, and the quotient is rounded; float division raises on
  a zero divisor.\<close>

definition py_truediv :: "int \<Rightarrow> int \<Rightarrow> error + rat" where
  "py_truediv a b =
     (if b = 0 then Inl ZeroDivisionError
      else Inr (py_float (py_float (of_int a) / py_float (of_int b))))"

text \<open>One element of \<open>data\<close>: the tuple \<open>(seqid, pos, ref, alt, c, hetratio)\<close>.\<close>

record marker =
  m_seqid :: string
  m_pos :: int
  m_ref :: string
  m_alt :: string
  m_c :: "string counter"
  m_hetratio :: rat

text \<open>The header loop \<open>for row in fp: if row[0] != '#': break\<close>. It leaves in \<open>row\<close>
  the first line that does not start with \<open>#\<close>, or the last line when all do; \<open>row\<close>
  is unbound when the file is empty. The remaining lines stay in the file iterator.\<close>

fun read_header :: "string option \<Rightarrow> string list \<Rightarrow> error + (string \<times> string list)" where
  "read_header prev [] = (case prev of None \<Rightarrow> Inl UnboundLocalError | Some r \<Rightarrow> Inr (r, []))"
| "read_header prev (row # rest) =
     (case row of
        [] \<Rightarrow> Inl IndexError
      | ch # _ \<Rightarrow> if ch \<noteq> CHR ''#'' then Inr (row, rest) else read_header (Some row) rest)"

text \<open>The body of the data loop for one row that is not a comment, on \<open>atoms = row.split()\<close>:
  \<open>Inr None\<close> is \<open>continue\<close>, \<open>Inr (Some m)\<close> is \<open>data.append(m)\<close>.\<close>

fun process_row :: "int \<Rightarrow> int \<Rightarrow> rat \<Rightarrow> string list \<Rightarrow> error + marker option" where
  "process_row ngenotypes nmissing het (seqid # pos # ref # alt # genotypes) =
     (let c = Counter genotypes;
          c0 = counter_get c ''0'';
          c3 = counter_get c ''3''
      in if int c0 \<ge> nmissing then Inr None
         else (case py_truediv (int c3) (ngenotypes - int c0) of
                 Inl e \<Rightarrow> Inl e
               | Inr hetratio \<Rightarrow>
                   if hetratio \<le> het then Inr None
                   else (case py_int pos of
                           Inl e \<Rightarrow> Inl e
                         | Inr p \<Rightarrow> Inr (Some \<lparr>m_seqid = seqid, m_pos = p, m_ref = ref, m_alt = alt,
                                             m_c = c, m_hetratio = hetratio\<rparr>))))"
| "process_row ngenotypes nmissing het atoms = Inl ValueError"

text \<open>The data loop \<open>for row in fp\<close> over the lines after the header.\<close>

fun scan_rows :: "int \<Rightarrow> int \<Rightarrow> rat \<Rightarrow> string list \<Rightarrow> marker list \<Rightarrow> error + marker list" where
  "scan_rows ngenotypes nmissing het [] data = Inr data"
| "scan_rows ngenotypes nmissing het (row # rows) data =
     (case row of
        [] \<Rightarrow> Inl IndexError
      | ch # _ \<Rightarrow>
          if ch = CHR ''#'' then scan_rows ngenotypes nmissing het rows data
          else (case process_row ngenotypes nmissing het (py_split row) of
                  Inl e \<Rightarrow> Inl e
                | Inr None \<Rightarrow> scan_rows ngenotypes nmissing het rows data
                | Inr (Some m) \<Rightarrow> scan_rows ngenotypes nmissing het rows (data @ [m])))"

subsection \<open>\<open>data.sort()\<close> and \<open>groupby\<close>\<close>

text \<open>Python 2 compares dicts (a \<open>Counter\<close> is one) by \<open>dict_compare\<close>: first the
  sizes; for equal sizes the smallest key of each dict at which the other dict differs,
  then the values at these keys. \<open>characterize a b\<close> is that smallest key of \<open>a\<close>
  with its value.\<close>

definition py_cmp :: "'a::linorder \<Rightarrow> 'a \<Rightarrow> int" where
  "py_cmp x y = (if x < y then - 1 else if x = y then 0 else 1)"

definition characterize :: "string counter \<Rightarrow> string counter \<Rightarrow> (string \<times> nat) option" where
  "characterize a b =
     fold (\<lambda>(k, v) best.
             if (case best of None \<Rightarrow> True | Some (bk, bv) \<Rightarrow> k < bk) \<and> map_of b k \<noteq> Some v
             then Some (k, v) else best) a None"

definition dict_compare :: "string counter \<Rightarrow> string counter \<Rightarrow> int" where
  "dict_compare a b =
     (if length a < length b then - 1
      else if length a > length b then 1
      else (case characterize a b of
              None \<Rightarrow> 0
            | Some (adiff, aval) \<Rightarrow>
                (case characterize b a of
                   None \<Rightarrow> 0
                 | Some (bdiff, bval) \<Rightarrow>
                     (let res = py_cmp adiff bdiff in if res = 0 then py_cmp aval bval else res))))"

text \<open>\<open>a == b\<close> on dicts: the same keys with the same values.\<close>

definition dict_eq :: "string counter \<Rightarrow> string counter \<Rightarrow> bool" where
  "dict_eq a b = (length a = length b \<and> list_all (\<lambda>(k, v). map_of b k = Some v) a)"

text \<open>\<open>x < y\<close> on the tuples of \<open>data\<close>: the first component at which the tuples are
  not equal decides.\<close>

definition marker_lt :: "marker \<Rightarrow> marker \<Rightarrow> bool" where
  "marker_lt x y =
     (if m_seqid x \<noteq> m_seqid y then m_seqid x < m_seqid y
      else if m_pos x \<noteq> m_pos y then m_pos x < m_pos y
      else if m_ref x \<noteq> m_ref y then m_ref x < m_ref y
      else if m_alt x \<noteq> m_alt y then m_alt x < m_alt y
      else if \<not> dict_eq (m_c x) (m_c y) then dict_compare (m_c x) (m_c y) < 0
      else if m_hetratio x \<noteq> m_hetratio y then m_hetratio x < m_hetratio y
      else False)"

text \<open>\<open>list.sort()\<close> is a stable sort that only asks \<open>y < x\<close>; it is modelled by the
  stable insertion sort.\<close>

fun py_insort :: "marker \<Rightarrow> marker list \<Rightarrow> marker list" where
  "py_insort x [] = [x]"
| "py_insort x (y # ys) = (if marker_lt y x then y # py_insort x ys else x # y # ys)"

fun py_sort :: "marker list \<Rightarrow> marker list" where
  "py_sort [] = []"
| "py_sort (x # xs) = py_insort x (py_sort xs)"

text \<open>\<open>itertools.groupby(data, key)\<close>: the maximal runs of consecutive elements with
  equal keys.\<close>

function groupby :: "('a \<Rightarrow> 'k) \<Rightarrow> 'a list \<Rightarrow> ('k \<times> 'a list) list" where
  "groupby key [] = []"
| "groupby key (x # xs) =
     (key x, x # takeWhile (\<lambda>y. key y = key x) xs)
       # groupby key (dropWhile (\<lambda>y. key y = key x) xs)"
  by pat_completeness auto
termination
  by (relation "measure (\<lambda>(key, xs). length xs)") (auto simp: less_Suc_eq_le length_dropWhile_le)

subsection \<open>Per-sample haplotype extraction\<close>

text \<open>What \<open>pysam\<close> hands to \<open>resolve\<close>: a pileup column has a reference position and
  the reads over it; of a read the code uses the name, the sequence and the position
  inside the read (\<open>None\<close> where the read has no base at the column). A sample's
  \<open>samfile.pileup\<close> maps a region identifier to its columns, or raises.\<close>

record pileup_read =
  query_name :: string
  query_sequence :: string
  query_position :: "int option"

record pileup_column =
  reference_pos :: int
  pileups :: "pileup_read list"

type_synonym samfile = "string \<Rightarrow> error + pileup_column list"

text \<open>\<open>s[i]\<close> on a string: negative indices count from the end, \<open>None\<close> is not an
  index.\<close>

definition py_getitem :: "string \<Rightarrow> int option \<Rightarrow> error + char" where
  "py_getitem s idx =
     (case idx of
        None \<Rightarrow> Inl TypeError
      | Some i \<Rightarrow>
          (let n = int (length s); j = (if i < 0 then n + i else i)
           in if 0 \<le> j \<and> j < n then Inr (s ! nat j) else Inl IndexError))"

text \<open>\<open>reads = defaultdict(list)\<close> and \<open>reads[rname].append(x)\<close>.\<close>

type_synonym reads = "(string \<times> (int \<times> char) list) list"

fun reads_append :: "reads \<Rightarrow> string \<Rightarrow> int \<times> char \<Rightarrow> reads" where
  "reads_append [] rname x = [(rname, [x])]"
| "reads_append ((k, xs) # rs) rname x =
     (if k = rname then (k, xs @ [x]) # rs else (k, xs) # reads_append rs rname x)"

text \<open>\<open>for r in c.pileups\<close>\<close>

fun scan_pileups :: "int \<Rightarrow> pileup_read list \<Rightarrow> reads \<Rightarrow> error + reads" where
  "scan_pileups p [] reads = Inr reads"
| "scan_pileups p (r # rs) reads =
     (case py_getitem (query_sequence r) (query_position r) of
        Inl e \<Rightarrow> Inl e
      | Inr rbase \<Rightarrow> scan_pileups p rs (reads_append reads (query_name r) (p, rbase)))"

text \<open>\<open>for c in samfile.pileup(seqid)\<close>, over the columns the call returned.\<close>

fun scan_columns :: "int \<Rightarrow> pileup_column list \<Rightarrow> reads \<Rightarrow> error + reads" where
  "scan_columns p [] reads = Inr reads"
| "scan_columns p (col # cols) reads =
     (if reference_pos col \<noteq> p - 1 then scan_columns p cols reads
      else (case scan_pileups p (pileups col) reads of
              Inl e \<Rightarrow> Inl e
            | Inr reads' \<Rightarrow> scan_columns p cols reads'))"

text \<open>\<open>for s, pos, ref, alt, c, hetratio in d\<close>: the pileup of the region is requested
  once for each marker, and the marker's position is appended to \<open>positions\<close>.\<close>

fun scan_markers ::
  "samfile \<Rightarrow> string \<Rightarrow> marker list \<Rightarrow> reads \<Rightarrow> int list \<Rightarrow> error + (reads \<times> int list)" where
  "scan_markers sam sid [] reads positions = Inr (reads, positions)"
| "scan_markers sam sid (m # d) reads positions =
     (case sam sid of
        Inl e \<Rightarrow> Inl e
      | Inr cols \<Rightarrow>
          (case scan_columns (m_pos m) cols reads of
             Inl e \<Rightarrow> Inl e
           | Inr reads' \<Rightarrow> scan_markers sam sid d reads' (positions @ [m_pos m])))"

text \<open>\<open>positions.index(p)\<close>: the first index of \<open>p\<close>, \<open>ValueError\<close> when absent.\<close>

fun py_index :: "'a list \<Rightarrow> 'a \<Rightarrow> error + nat" where
  "py_index [] p = Inl ValueError"
| "py_index (x # xs) p =
     (if x = p then Inr 0 else (case py_index xs p of Inl e \<Rightarrow> Inl e | Inr i \<Rightarrow> Inr (Suc i)))"

text \<open>\<open>for p, rbase in read: hap[positions.index(p)] = rbase\<close>\<close>

fun fill_hap :: "int list \<Rightarrow> (int \<times> char) list \<Rightarrow> string \<Rightarrow> error + string" where
  "fill_hap positions [] hap = Inr hap"
| "fill_hap positions ((p, rbase) # read) hap =
     (case py_index positions p of
        Inl e \<Rightarrow> Inl e
      | Inr i \<Rightarrow> if i < length hap then fill_hap positions read (hap[i := rbase])
                 else Inl IndexError)"

text \<open>The body of \<open>for read in reads.values()\<close>: \<open>Inr None\<close> is \<open>continue\<close>,
  \<open>Inr (Some hap)\<close> is \<open>haplotypes.append(hap)\<close>.\<close>

definition read_hap :: "nat \<Rightarrow> int list \<Rightarrow> (int \<times> char) list \<Rightarrow> error + string option" where
  "read_hap nmarkers positions read =
     (case fill_hap positions read (replicate nmarkers CHR ''-'') of
        Inl e \<Rightarrow> Inl e
      | Inr hap \<Rightarrow> if CHR ''-'' \<in> set hap then Inr None else Inr (Some hap))"

fun collect_haps ::
  "nat \<Rightarrow> int list \<Rightarrow> (int \<times> char) list list \<Rightarrow> string list \<Rightarrow> error + string list" where
  "collect_haps nmarkers positions [] haplotypes = Inr haplotypes"
| "collect_haps nmarkers positions (read # rest) haplotypes =
     (case read_hap nmarkers positions read of
        Inl e \<Rightarrow> Inl e
      | Inr None \<Rightarrow> collect_haps nmarkers positions rest haplotypes
      | Inr (Some hap) \<Rightarrow> collect_haps nmarkers positions rest (haplotypes @ [hap]))"

text \<open>The body of \<open>for samfile in samfiles\<close>: the set of the sample's haplotypes.\<close>

definition sample_haplotypes :: "samfile \<Rightarrow> string \<Rightarrow> marker list \<Rightarrow> error + string list" where
  "sample_haplotypes sam sid d =
     (case scan_markers sam sid d [] [] of
        Inl e \<Rightarrow> Inl e
      | Inr (reads, positions) \<Rightarrow>
          (case collect_haps (length d) positions (map snd reads) [] of
             Inl e \<Rightarrow> Inl e
           | Inr haplotypes \<Rightarrow> Inr (remdups haplotypes)))"

fun region_haplotypes ::
  "samfile list \<Rightarrow> string \<Rightarrow> marker list \<Rightarrow> string list list \<Rightarrow> error + string list list" where
  "region_haplotypes [] sid d hset = Inr hset"
| "region_haplotypes (sam # sams) sid d hset =
     (case sample_haplotypes sam sid d of
        Inl e \<Rightarrow> Inl e
      | Inr haplotypes \<Rightarrow> region_haplotypes sams sid d (hset @ [haplotypes]))"

subsection \<open>\<open>HaplotypeResolver\<close>\<close>

record haplotype_resolver =
  haplotype_set :: "string list list"
  nind :: nat
  counter :: "string counter"

definition HaplotypeResolver :: "string list list \<Rightarrow> haplotype_resolver" where
  "HaplotypeResolver hset =
     \<lparr>haplotype_set = hset,
      nind = length hset,
      counter = fold (\<lambda>haplotypes cnt. Counter_update cnt (Counter haplotypes)) hset []\<rparr>"

text \<open>\<open>itertools.combinations(xs, 2)\<close>\<close>

fun combinations2 :: "'a list \<Rightarrow> ('a \<times> 'a) list" where
  "combinations2 [] = []"
| "combinations2 (x # xs) = map (Pair x) xs @ combinations2 xs"

text \<open>The lines of the report: \<open>print >> fw, seqid, hr\<close> and \<open>print >> fw, a, b, abi\<close>.\<close>

datatype out_line =
    Summary string "string counter"
  | CoOccurrence string string nat

definition cooccur :: "string list list \<Rightarrow> string \<Rightarrow> string \<Rightarrow> nat" where
  "cooccur hset a b = length (filter (\<lambda>haplotypes. a \<in> set haplotypes \<and> b \<in> set haplotypes) hset)"

definition solve :: "haplotype_resolver \<Rightarrow> out_line list" where
  "solve hr =
     map (\<lambda>((a, ai), (b, bi)). CoOccurrence a b (cooccur (haplotype_set hr) a b))
       (combinations2 (counter hr))"

subsection \<open>\<open>resolve\<close>\<close>

text \<open>The loop over the regions. It returns what was written to \<open>fw\<close> and the
  exception that ended the run, if one did.\<close>

fun resolve_regions ::
  "samfile list \<Rightarrow> (string \<times> marker list) list \<Rightarrow> out_line list \<Rightarrow> out_line list \<times> error option" where
  "resolve_regions sams [] out = (out, None)"
| "resolve_regions sams ((sid, d) # groups) out =
     (case region_haplotypes sams sid d [] of
        Inl e \<Rightarrow> (out, Some e)
      | Inr hset \<Rightarrow>
          (let hr = HaplotypeResolver hset
           in resolve_regions sams groups (out @ Summary sid (counter hr) # solve hr)))"

text \<open>The marker selection: header, data loop and sort.\<close>

definition select_markers :: "rat \<Rightarrow> rat \<Rightarrow> string list \<Rightarrow> error + marker list" where
  "select_markers missing het fp =
     (case read_header None fp of
        Inl e \<Rightarrow> Inl e
      | Inr (row, rest) \<Rightarrow>
          (let header = py_split row;
               ngenotypes = int (length header) - 4;
               nmissing = py_round (py_float (missing * py_float (of_int ngenotypes)))
           in (case scan_rows ngenotypes nmissing het rest [] of
                 Inl e \<Rightarrow> Inl e
               | Inr data \<Rightarrow> Inr (py_sort data))))"

definition resolve :: "rat \<Rightarrow> rat \<Rightarrow> string list \<Rightarrow> samfile list \<Rightarrow> out_line list \<times> error option" where
  "resolve missing het fp sams =
     (case select_markers missing het fp of
        Inl e \<Rightarrow> ([], Some e)
      | Inr data \<Rightarrow> resolve_regions sams (groupby m_seqid data) [])"

subsection \<open>Notions for stating the properties\<close>

text \<open>\<open>record_of_pair a b l\<close>: the line \<open>l\<close> is the co-occurrence record of the
  unordered pair of \<open>a\<close> and \<open>b\<close>, in either order.\<close>

fun record_of_pair :: "string \<Rightarrow> string \<Rightarrow> out_line \<Rightarrow> bool" where
  "record_of_pair a b (CoOccurrence x y n) = ((x = a \<and> y = b) \<or> (x = b \<and> y = a))"
| "record_of_pair a b (Summary sid cnt) = False"

text \<open>\<open>key_le x y\<close>: the \<open>(seqid, pos)\<close> key of \<open>x\<close> is at most that of \<open>y\<close>.\<close>

definition key_le :: "marker \<Rightarrow> marker \<Rightarrow> bool" where
  "key_le x y = (m_seqid x < m_seqid y \<or> (m_seqid x = m_seqid y \<and> m_pos x \<le> m_pos y))"

text \<open>The regions that \<open>resolve\<close> iterates over, each with the positions of its
  markers in order.\<close>

definition region_positions :: "rat \<Rightarrow> rat \<Rightarrow> string list \<Rightarrow> error + (string \<times> int list) list" where
  "region_positions missing het fp =
     (case select_markers missing het fp of
        Inl e \<Rightarrow> Inl e
      | Inr data \<Rightarrow> Inr (map (\<lambda>(sid, d). (sid, map m_pos d)) (groupby m_seqid data)))"

text \<open>\<open>obs_of reads rname\<close> is \<open>reads[rname]\<close>, the observations collected for a read
  (empty when the read has none). \<open>observed cols rname p\<close>: in the pileup \<open>cols\<close> the
  read \<open>rname\<close> lies over the marker position \<open>p\<close>, that is, in a column of
  reference position \<open>p - 1\<close>. \<open>bases cols\<close>: the characters of all read sequences.\<close>

definition obs_of :: "reads \<Rightarrow> string \<Rightarrow> (int \<times> char) list" where
  "obs_of reads rname = (case map_of reads rname of None \<Rightarrow> [] | Some xs \<Rightarrow> xs)"

definition observed :: "pileup_column list \<Rightarrow> string \<Rightarrow> int \<Rightarrow> bool" where
  "observed cols rname p =
     (\<exists>col \<in> set cols. reference_pos col = p - 1 \<and> rname \<in> query_name ` set (pileups col))"

definition bases :: "pileup_column list \<Rightarrow> char set" where
  "bases cols = (\<Union>col \<in> set cols. \<Union>r \<in> set (pileups col). set (query_sequence r))"

subsection \<open>Example inputs\<close>

text \<open>A matrix of four individuals in which two selected rows share region and
  position, and one with two selected rows at different positions, given out of order.\<close>

definition dup_matrix :: "string list" where
  "dup_matrix =
     [''seqid pos ref alt s1 s2 s3 s4'',
      ''ctg1 100 A G 3 3 1 0'',
      ''ctg1 100 A G 3 3 3 1'']"

definition two_marker_matrix :: "string list" where
  "two_marker_matrix =
     [''seqid pos ref alt s1 s2 s3 s4'',
      ''ctg1 200 C T 3 3 3 1'',
      ''ctg1 100 A G 3 3 1 0'']"

text \<open>A matrix whose header line starts with \<open>#\<close>.\<close>

definition hash_header_matrix :: "string list" where
  "hash_header_matrix =
     [''#seqid pos ref alt s1 s2 s3 s4'',
      ''ctg1 100 A G 3 3 1 0'']"

text \<open>The markers of the rows \<open>ctg1 100 A G 3 3 1 0\<close> and \<open>ctg1 200 C T 3 3 3 1\<close>;
  the heterozygosity ratio of the first is the double nearest to \<open>2 / 3\<close>.\<close>

definition marker_100 :: marker where
  "marker_100 = \<lparr>m_seqid = ''ctg1'', m_pos = 100, m_ref = ''A'', m_alt = ''G'',
     m_c = [(''3'', 2), (''1'', 1), (''0'', 1)],
     m_hetratio = 6004799503160661 / 9007199254740992\<rparr>"

definition marker_200 :: marker where
  "marker_200 = \<lparr>m_seqid = ''ctg1'', m_pos = 200, m_ref = ''C'', m_alt = ''T'',
     m_c = [(''3'', 3), (''1'', 1)], m_hetratio = 3 / 4\<rparr>"

text \<open>A sample whose alignment index does not know the region, and a sample without
  any read over it.\<close>

definition no_reference :: samfile where
  "no_reference sid = Inl PileupError"

definition no_coverage :: samfile where
  "no_coverage sid = Inr []"

text \<open>The marker of the row \<open>ctg1 100 A G 3 3 3 1\<close>, the second row of \<open>dup_matrix\<close>.\<close>

definition marker_100b :: marker where
  "marker_100b = \<lparr>m_seqid = ''ctg1'', m_pos = 100, m_ref = ''A'', m_alt = ''G'',
     m_c = [(''3'', 3), (''1'', 1)], m_hetratio = 3 / 4\<rparr>"

text \<open>A sample with one read over position 100, and a sample with a read \<open>r1\<close> over
  the positions 100 and 200 and a read \<open>r2\<close> over position 100 only.\<close>

definition one_read_cols :: "pileup_column list" where
  "one_read_cols =
     [\<lparr>reference_pos = 99,
       pileups = [\<lparr>query_name = ''r1'', query_sequence = ''A'', query_position = Some 0\<rparr>]\<rparr>]"

definition one_read :: samfile where
  "one_read sid = Inr one_read_cols"

definition two_reads_cols :: "pileup_column list" where
  "two_reads_cols =
     [\<lparr>reference_pos = 99,
       pileups = [\<lparr>query_name = ''r1'', query_sequence = ''AT'', query_position = Some 0\<rparr>,
                  \<lparr>query_name = ''r2'', query_sequence = ''G'', query_position = Some 0\<rparr>]\<rparr>,
      \<lparr>reference_pos = 199,
       pileups = [\<lparr>query_name = ''r1'', query_sequence = ''AT'', query_position = Some 1\<rparr>]\<rparr>]"

definition two_reads :: samfile where
  "two_reads sid = Inr two_reads_cols"

section \<open>Properties\<close>

subsection \<open>Facts about \<open>Counter\<close>\<close>

lemma counter_get_add:
  "counter_get (counter_add c k n) k' = (if k' = k then counter_get c k + n else counter_get c k')"
  by (induction c k n rule: counter_add.induct) (auto simp: counter_get_def)

lemma keys_counter_add:
  "map fst (counter_add c k n) = (if k \<in> set (map fst c) then map fst c else map fst c @ [k])"
  by (induction c k n rule: counter_add.induct) auto

lemma distinct_counter_add:
  "distinct (map fst c) \<Longrightarrow> distinct (map fst (counter_add c k n))"
  by (simp add: keys_counter_add)

lemma set_keys_counter_add: "set (map fst (counter_add c k n)) = insert k (set (map fst c))"
  by (auto simp: keys_counter_add)

lemma counter_get_fold_add:
  "counter_get (fold (\<lambda>k c. counter_add c k 1) xs c) k = counter_get c k + count_list xs k"
  by (induction xs arbitrary: c) (auto simp: counter_get_add)

lemma counter_get_Nil: "counter_get [] k = 0"
  by (simp add: counter_get_def)

lemma counter_get_Counter: "counter_get (Counter xs) k = count_list xs k"
  unfolding Counter_def using counter_get_fold_add [of xs "[]" k] by (simp add: counter_get_Nil)

lemma keys_fold_add:
  "set (map fst (fold (\<lambda>k c. counter_add c k 1) xs c)) = set (map fst c) \<union> set xs"
  by (induction xs arbitrary: c) (auto simp: set_keys_counter_add simp del: set_map)

lemma distinct_fold_add:
  "distinct (map fst c) \<Longrightarrow> distinct (map fst (fold (\<lambda>k c. counter_add c k 1) xs c))"
  by (induction xs arbitrary: c) (auto simp: distinct_counter_add)

lemma distinct_Counter: "distinct (map fst (Counter xs))"
  unfolding Counter_def using distinct_fold_add [of "[]" xs] by simp

lemma keys_Counter: "set (map fst (Counter xs)) = set xs"
  unfolding Counter_def using keys_fold_add [of xs "[]"] by simp

lemma counter_get_update_gen:
  "counter_get (fold (\<lambda>(k, n) c'. counter_add c' k n) other c) k =
     counter_get c k + sum_list (map snd (filter (\<lambda>kv. fst kv = k) other))"
  by (induction other arbitrary: c) (auto simp: counter_get_add)

lemma filter_key_absent: "k \<notin> set (map fst xs) \<Longrightarrow> filter (\<lambda>kv. fst kv = k) xs = []"
  by (induction xs) auto

lemma sum_entries_distinct:
  "distinct (map fst other) \<Longrightarrow>
     sum_list (map snd (filter (\<lambda>kv. fst kv = k) other)) = counter_get other k"
proof (induction other)
  case Nil
  then show ?case by (simp add: counter_get_def)
next
  case (Cons kv other)
  obtain k' n where kv: "kv = (k', n)" by (cases kv)
  show ?case
  proof (cases "k' = k")
    case True
    then have "filter (\<lambda>x. fst x = k) other = []"
      using Cons.prems kv by (intro filter_key_absent) simp
    moreover have "map_of other k = None"
      using Cons.prems kv True by (simp add: map_of_eq_None_iff)
    ultimately show ?thesis using kv True by (simp add: counter_get_def)
  next
    case False
    then show ?thesis using Cons kv by (simp add: counter_get_def)
  qed
qed

lemma counter_get_update:
  "distinct (map fst other) \<Longrightarrow>
     counter_get (Counter_update c other) k = counter_get c k + counter_get other k"
  by (simp add: Counter_update_def counter_get_update_gen sum_entries_distinct)

lemma keys_update:
  "set (map fst (Counter_update c other)) = set (map fst c) \<union> set (map fst other)"
  unfolding Counter_update_def
  by (induction other arbitrary: c) (auto simp: set_keys_counter_add simp del: set_map)

lemma distinct_update:
  "distinct (map fst c) \<Longrightarrow> distinct (map fst (Counter_update c other))"
  unfolding Counter_update_def
  by (induction other arbitrary: c) (auto simp: distinct_counter_add)


lemma counter_fold_get:
  "counter_get (fold (\<lambda>haplotypes cnt. Counter_update cnt (Counter haplotypes)) hset c) h =
     counter_get c h + sum_list (map (\<lambda>haplotypes. count_list haplotypes h) hset)"
  by (induction hset arbitrary: c)
     (simp_all add: counter_get_update distinct_Counter counter_get_Counter)

lemma counter_fold_keys:
  "set (map fst (fold (\<lambda>haplotypes cnt. Counter_update cnt (Counter haplotypes)) hset c)) =
     set (map fst c) \<union> \<Union> (set ` set hset)"
  by (induction hset arbitrary: c) (auto simp: keys_update keys_Counter simp del: set_map)

lemma counter_fold_distinct:
  "distinct (map fst c) \<Longrightarrow>
     distinct (map fst (fold (\<lambda>haplotypes cnt. Counter_update cnt (Counter haplotypes)) hset c))"
  by (induction hset arbitrary: c) (simp_all add: distinct_update)

lemma resolver_get:
  "counter_get (counter (HaplotypeResolver hset)) h =
     sum_list (map (\<lambda>haplotypes. count_list haplotypes h) hset)"
  by (simp add: HaplotypeResolver_def counter_fold_get counter_get_Nil)

lemma resolver_keys: "set (map fst (counter (HaplotypeResolver hset))) = \<Union> (set ` set hset)"
  using counter_fold_keys [of hset "[]"] by (simp add: HaplotypeResolver_def)

lemma resolver_distinct: "distinct (map fst (counter (HaplotypeResolver hset)))"
  using counter_fold_distinct [of "[]" hset] by (simp add: HaplotypeResolver_def)



lemma samples_le_sum:
  "length (filter (\<lambda>haplotypes. h \<in> set haplotypes) hset)
     \<le> sum_list (map (\<lambda>haplotypes. count_list haplotypes h) hset)"
proof (induction hset)
  case Nil
  then show ?case by simp
next
  case (Cons s hset)
  have "h \<in> set s \<Longrightarrow> 1 \<le> count_list s h"
    by (metis count_list_0_iff not_less_eq_eq le_0_eq One_nat_def)
  then show ?case using Cons by auto
qed


subsection \<open>Marker selection\<close>

lemma py_float_2: "py_float 2 = 2"
  by code_simp

lemma py_float_4: "py_float 4 = 4"
  by code_simp

lemma truediv_2_3: "py_truediv 2 3 = Inr (6004799503160661 / 9007199254740992)"
  by code_simp

lemma truediv_3_4: "py_truediv 3 4 = Inr (3 / 4)"
  by code_simp

lemma round_2: "py_round 2 = 2"
  by (simp add: py_round_def floor_eq_iff)

lemma nmissing_half_4: "py_round (py_float (1 / 2 * py_float (of_int 4))) = 2"
  by (simp add: py_float_4 py_float_2 round_2)

text \<open>The product is rounded before \<open>round\<close> sees it: \<open>0.58 * 25\<close> is just below
  \<open>14.5\<close> and gives 14, \<open>0.35 * 10\<close> is the double \<open>3.5\<close> and gives 4.\<close>

lemma rounded_products:
  "py_round (py_float (py_float (58 / 100) * py_float (of_int 25))) = 14 \<and>
   py_round (py_float (py_float (35 / 100) * py_float (of_int 10))) = 4"
  by code_simp

lemma py_round_le:
  assumes "missing \<le> 1" "0 \<le> N"
  shows "py_round (missing * of_int N) \<le> N"
proof -
  have le: "missing * of_int N \<le> of_int N"
    using assms mult_right_mono [of missing 1 "of_int N"] by simp
  show ?thesis
  proof (cases "0 \<le> missing * of_int N")
    case True
    have "missing * of_int N + 1 / 2 < of_int N + 1" using le by simp
    then show ?thesis using True by (simp add: py_round_def floor_le_iff)
  next
    case False
    then have "missing * of_int N - 1 / 2 \<le> of_int 0" by simp
    then have "\<lceil>missing * of_int N - 1 / 2\<rceil> \<le> 0" by (simp only: ceiling_le_iff)
    then have "\<lceil>missing * of_int N - 1 / 2\<rceil> \<le> N" using assms(2) by linarith
    moreover have "py_round (missing * of_int N) = \<lceil>missing * of_int N - 1 / 2\<rceil>"
      using False by (simp only: py_round_def if_False)
    ultimately show ?thesis by simp
  qed
qed

lemma process_row_cases:
  "process_row N nmissing het (sid # p # r # a # genotypes) =
     (if nmissing \<le> int (count_list genotypes ''0'') then Inr None
      else (case py_truediv (int (count_list genotypes ''3'')) (N - int (count_list genotypes ''0'')) of
              Inl e \<Rightarrow> Inl e
            | Inr q \<Rightarrow>
                if q \<le> het then Inr None
                else (case py_int p of
                        Inl e \<Rightarrow> Inl e
                      | Inr n \<Rightarrow> Inr (Some \<lparr>m_seqid = sid, m_pos = n, m_ref = r, m_alt = a,
                                          m_c = Counter genotypes, m_hetratio = q\<rparr>))))"
  by (simp add: counter_get_Counter Let_def)

lemma scan_rows_acc:
  "scan_rows N nm het rows acc =
     (case scan_rows N nm het rows [] of Inl e \<Rightarrow> Inl e | Inr ds \<Rightarrow> Inr (acc @ ds))"
proof (induction rows arbitrary: acc)
  case Nil
  then show ?case by simp
next
  case (Cons row rows)
  show ?case
  proof (cases row)
    case Nil
    then show ?thesis by simp
  next
    case (Cons ch cs)
    show ?thesis
    proof (cases "ch = CHR ''#''")
      case True
      then show ?thesis using Cons Cons.IH [of acc] by simp
    next
      case False
      show ?thesis
      proof (cases "process_row N nm het (py_split row)")
        case (Inl e)
        then show ?thesis using Cons False by simp
      next
        case (Inr res)
        show ?thesis
        proof (cases res)
          case None
          then show ?thesis using Cons False Inr Cons.IH [of acc] by simp
        next
          case (Some m)
          show ?thesis
          proof (cases "scan_rows N nm het rows []")
            case l: (Inl e)
            then show ?thesis
              using Cons False Inr Some Cons.IH [of "acc @ [m]"] Cons.IH [of "[m]"] by simp
          next
            case r: (Inr ds)
            then show ?thesis
              using Cons False Inr Some Cons.IH [of "acc @ [m]"] Cons.IH [of "[m]"] by simp
          qed
        qed
      qed
    qed
  qed
qed

lemma scan_rows_append:
  "scan_rows N nm het (pre @ rest) acc =
     (case scan_rows N nm het pre acc of Inl e \<Rightarrow> Inl e | Inr d \<Rightarrow> scan_rows N nm het rest d)"
proof (induction pre arbitrary: acc)
  case Nil
  then show ?case by simp
next
  case (Cons row pre)
  show ?case
  proof (cases row)
    case Nil
    then show ?thesis by simp
  next
    case c: (Cons ch cs)
    show ?thesis
    proof (cases "process_row N nm het (py_split row)")
      case (Inl e)
      then show ?thesis using c Cons.IH by simp
    next
      case (Inr res)
      then show ?thesis using c Cons.IH by (cases res) simp_all
    qed
  qed
qed

lemma scan_rows_one:
  assumes "row \<noteq> []" and "hd row \<noteq> CHR ''#''"
  shows "scan_rows N nm het (row # post) acc =
     (case process_row N nm het (py_split row) of
        Inl e \<Rightarrow> Inl e
      | Inr None \<Rightarrow> scan_rows N nm het post acc
      | Inr (Some m) \<Rightarrow> scan_rows N nm het post (acc @ [m]))"
  using assms by (cases row) simp_all

lemma round_half_even_le: "q \<le> of_int K \<Longrightarrow> round_half_even q \<le> K"
proof -
  assume q: "q \<le> of_int K"
  then have f: "\<lfloor>q\<rfloor> \<le> K" by (simp add: floor_le_iff)
  show ?thesis
  proof (cases "\<lfloor>q\<rfloor> = K")
    case True
    have "of_int \<lfloor>q\<rfloor> \<le> q" by simp
    then have "q = of_int K" using q True by simp
    then show ?thesis by (simp add: round_half_even_def)
  next
    case False
    then have "\<lfloor>q\<rfloor> + 1 \<le> K" using f by simp
    then show ?thesis by (simp add: round_half_even_def Let_def)
  qed
qed

lemma round_half_even_nonneg: "0 \<le> q \<Longrightarrow> 0 \<le> round_half_even q"
proof -
  assume "0 \<le> q"
  then have "0 \<le> \<lfloor>q\<rfloor>" by simp
  then show ?thesis by (simp add: round_half_even_def Let_def)
qed

lemma float_exponent_le:
  assumes "0 < y"
  shows "2 powi (float_exponent y) \<le> y"
proof (cases "1 \<le> y")
  case True
  then have p: "0 < \<lfloor>y\<rfloor>" by simp
  then have b: "1 \<le> bitlen \<lfloor>y\<rfloor>" using bitlen_eq_zero_iff [of "\<lfloor>y\<rfloor>"] bitlen_nonneg [of "\<lfloor>y\<rfloor>"] by linarith
  have "(2::int) ^ nat (bitlen \<lfloor>y\<rfloor> - 1) \<le> \<lfloor>y\<rfloor>" using bitlen_bounds [OF p] by simp
  then have "(of_int ((2::int) ^ nat (bitlen \<lfloor>y\<rfloor> - 1)) :: rat) \<le> of_int \<lfloor>y\<rfloor>"
    by (simp only: of_int_le_iff)
  also have "\<dots> \<le> y" by simp
  finally have "(2::rat) ^ nat (bitlen \<lfloor>y\<rfloor> - 1) \<le> y" by simp
  moreover have "float_exponent y = bitlen \<lfloor>y\<rfloor> - 1" using True by (simp add: float_exponent_def)
  ultimately show ?thesis using b by (simp add: power_int_def)
next
  case False
  then have lt: "y < 1" by simp
  define n where "n = \<lceil>1 / y\<rceil> - 1"
  have "1 < 1 / y" using assms lt by simp
  then have "1 < \<lceil>1 / y\<rceil>" by (simp add: less_ceiling_iff)
  then have p: "0 < n" by (simp add: n_def)
  have "n < 2 ^ nat (bitlen n)" using bitlen_bounds [OF p] by simp
  then have "\<lceil>1 / y\<rceil> \<le> 2 ^ nat (bitlen n)" by (simp add: n_def)
  then have "1 / y \<le> of_int (2 ^ nat (bitlen n))" by (simp only: ceiling_le_iff)
  then have "1 / y \<le> 2 ^ nat (bitlen n)" by simp
  then have "1 \<le> 2 ^ nat (bitlen n) * y" using assms by (simp add: field_simps)
  then have "1 / 2 ^ nat (bitlen n) \<le> y" by (simp add: field_simps)
  moreover have "float_exponent y = - bitlen n" using False by (simp add: float_exponent_def n_def)
  moreover have "0 \<le> bitlen n" by (rule bitlen_nonneg)
  moreover have "(2::rat) powi (- bitlen n) = 1 / 2 ^ nat (bitlen n)"
    using bitlen_nonneg [of n]
    by (simp add: power_int_minus power_int_def inverse_eq_divide power_one_over)
  ultimately show ?thesis by simp
qed

lemma py_float_nonneg: "0 \<le> y \<Longrightarrow> 0 \<le> py_float y"
proof -
  assume y: "0 \<le> y"
  have u: "(0::rat) < 2 powi k" for k by simp
  show ?thesis
  proof (cases "y = 0")
    case True
    then show ?thesis by (simp add: py_float_def)
  next
    case False
    have "0 \<le> y / 2 powi (float_exponent \<bar>y\<bar> - 52)" using y u by simp
    then have "0 \<le> round_half_even (y / 2 powi (float_exponent \<bar>y\<bar> - 52))"
      by (rule round_half_even_nonneg)
    then show ?thesis using False by (simp add: py_float_def Let_def)
  qed
qed

lemma py_float_le_int:
  assumes "0 \<le> N" and "N < 2 ^ 53" and "y \<le> of_int N"
  shows "py_float y \<le> of_int N"
proof -
  consider (zero) "y = 0" | (neg) "y < 0" | (pos) "0 < y" by linarith
  then show ?thesis
  proof cases
    case zero
    then show ?thesis using assms(1) by (simp add: py_float_def)
  next
    case neg
    define u :: rat where "u = 2 powi (float_exponent \<bar>y\<bar> - 52)"
    have u: "0 < u" by (simp add: u_def)
    have "y / u \<le> of_int 0" using neg u by (simp add: field_simps)
    then have "round_half_even (y / u) \<le> 0" by (rule round_half_even_le)
    then have "of_int (round_half_even (y / u)) * u \<le> 0"
      using u by (simp add: mult_le_0_iff)
    then show ?thesis using neg assms(1) by (simp add: py_float_def Let_def u_def)
  next
    case pos
    define e where "e = float_exponent y"
    define u :: rat where "u = 2 powi (e - 52)"
    have u: "0 < u" by (simp add: u_def)
    have "2 powi e \<le> y" unfolding e_def using pos by (rule float_exponent_le)
    then have "(2::rat) powi e \<le> of_int N" using assms(3) by simp
    also have "(of_int N :: rat) < of_int (2 ^ 53)" using assms(2) by (simp only: of_int_less_iff)
    also have "(of_int (2 ^ 53) :: rat) = 2 powi 53" by simp
    finally have "(2::rat) powi e < 2 powi 53" .
    have e52: "e \<le> 52"
    proof (rule ccontr)
      assume "\<not> e \<le> 52"
      then have "53 \<le> e" by simp
      then have "(2::rat) powi 53 \<le> 2 powi e" by (intro power_int_increasing) simp_all
      then show False using \<open>(2::rat) powi e < 2 powi 53\<close> by simp
    qed
    define K where "K = N * 2 ^ nat (52 - e)"
    have ue: "u = 1 / 2 ^ nat (52 - e)"
      using e52 by (simp add: u_def power_int_def field_simps)
    have NK: "of_int N / u = of_int K" by (simp add: ue K_def)
    have "y / u \<le> of_int N / u" using assms(3) u by (simp add: divide_right_mono)
    then have "round_half_even (y / u) \<le> K" unfolding NK by (rule round_half_even_le)
    then have "of_int (round_half_even (y / u)) * u \<le> of_int K * u"
      using u by simp
    also have "of_int K * u = of_int N" using NK u by (simp add: field_simps)
    finally have "of_int (round_half_even (y / u)) * u \<le> of_int N" .
    moreover have "py_float y = of_int (round_half_even (y / u)) * u"
      using pos by (simp add: py_float_def Let_def u_def e_def)
    ultimately show ?thesis by simp
  qed
qed

lemma py_round_le_int: "x \<le> of_int N \<Longrightarrow> 0 \<le> N \<Longrightarrow> py_round x \<le> N"
proof -
  assume le: "x \<le> of_int N" and N: "0 \<le> N"
  show ?thesis
  proof (cases "0 \<le> x")
    case True
    have "x + 1 / 2 < of_int N + 1" using le by simp
    then show ?thesis using True by (simp add: py_round_def floor_le_iff)
  next
    case False
    then have "x - 1 / 2 \<le> of_int 0" by simp
    then have "\<lceil>x - 1 / 2\<rceil> \<le> 0" by (simp only: ceiling_le_iff)
    then have "\<lceil>x - 1 / 2\<rceil> \<le> N" using N by linarith
    moreover have "py_round x = \<lceil>x - 1 / 2\<rceil>"
      using False by (simp only: py_round_def if_False)
    ultimately show ?thesis by simp
  qed
qed

lemma nmissing_le:
  assumes "missing \<le> 1" and "0 \<le> N" and "N < 2 ^ 53"
  shows "py_round (py_float (missing * py_float (of_int N))) \<le> N"
proof -
  have ub: "py_float (of_int N) \<le> of_int N" using assms(2,3) by (rule py_float_le_int) simp
  have lb: "0 \<le> py_float (of_int N)" using assms(2) by (intro py_float_nonneg) simp
  have "missing * py_float (of_int N) \<le> 1 * py_float (of_int N)"
    using assms(1) lb by (rule mult_right_mono)
  then have "missing * py_float (of_int N) \<le> of_int N" using ub by simp
  then have "py_float (missing * py_float (of_int N)) \<le> of_int N"
    using assms(2,3) by (intro py_float_le_int)
  then show ?thesis using assms(2) by (rule py_round_le_int)
qed

lemma py_int_no_zero_division: "py_int p \<noteq> Inl ZeroDivisionError"
  by (cases p) (auto simp: py_digits_def split: sum.splits)

lemma process_row_no_zero_division:
  assumes "0 \<le> N \<Longrightarrow> nm \<le> N"
  shows "process_row N nm het atoms \<noteq> Inl ZeroDivisionError"
proof (cases "\<exists>sid p r a genotypes. atoms = sid # p # r # a # genotypes")
  case True
  then obtain sid p r a genotypes where at: "atoms = sid # p # r # a # genotypes" by blast
  have d: "int (count_list genotypes ''0'') < nm \<Longrightarrow> N - int (count_list genotypes ''0'') \<noteq> 0"
    using assms by (cases "0 \<le> N") auto
  show ?thesis
    unfolding at process_row_cases
    using py_int_no_zero_division [of p] d
    by (auto simp: py_truediv_def split: sum.splits)
next
  case False
  then have "process_row N nm het atoms = Inl ValueError"
    by (cases "(N, nm, het, atoms)" rule: process_row.cases) auto
  then show ?thesis by simp
qed

lemma scan_rows_no_zero_division:
  assumes "0 \<le> N \<Longrightarrow> nm \<le> N"
  shows "scan_rows N nm het rows acc \<noteq> Inl ZeroDivisionError"
proof (induction rows arbitrary: acc)
  case Nil
  then show ?case by simp
next
  case (Cons row rows)
  show ?case
  proof (cases row)
    case Nil
    then show ?thesis by simp
  next
    case c: (Cons ch cs)
    show ?thesis
    proof (cases "process_row N nm het (py_split row)")
      case (Inl e)
      then have "e \<noteq> ZeroDivisionError"
        using process_row_no_zero_division [OF assms, of het "py_split row"] by auto
      then show ?thesis using c Inl Cons.IH by simp
    next
      case (Inr res)
      then show ?thesis using c Cons.IH by (cases res) simp_all
    qed
  qed
qed

lemma read_header_no_zero_division: "read_header prev fp \<noteq> Inl ZeroDivisionError"
  by (induction prev fp rule: read_header.induct) (auto split: option.splits list.splits)

text \<open>
  \<^bold>\<open>C10.\<close> With a missingness fraction of at most 1, a row that passes the
  missingness test has a strictly positive denominator \<open>N - c0\<close> (\<open>N\<close>, a number of
  columns, being at least 0), and no row is answered by a division by zero. This holds
  for the threshold \<open>round(missing * N)\<close> of the exact product and, for fewer than
  \<open>2\<^sup>5\<^sup>3\<close> columns, for the threshold of the rounded double product that the code
  computes; then the whole marker selection never raises \<open>ZeroDivisionError\<close>.
\<close>

theorem hetratio_denominator_positive:
  assumes "missing \<le> 1"
  shows "(0 \<le> N \<and> int (count_list genotypes ''0'') < py_round (missing * of_int N) \<longrightarrow>
            0 < N - int (count_list genotypes ''0''))
       \<and> process_row N (py_round (missing * of_int N)) het (sid # p # r # a # genotypes)
            \<noteq> Inl ZeroDivisionError
       \<and> (N < 2 ^ 53 \<longrightarrow>
            (0 \<le> N \<and> int (count_list genotypes ''0'')
                 < py_round (py_float (missing * py_float (of_int N))) \<longrightarrow>
               0 < N - int (count_list genotypes ''0''))
            \<and> process_row N (py_round (py_float (missing * py_float (of_int N)))) het
                 (sid # p # r # a # genotypes) \<noteq> Inl ZeroDivisionError)
       \<and> ((\<forall>hrow rest. read_header None fp = Inr (hrow, rest) \<longrightarrow>
               int (length (py_split hrow)) - 4 < 2 ^ 53) \<longrightarrow>
            select_markers missing het fp \<noteq> Inl ZeroDivisionError)"
proof (intro conjI impI)
  have le: "0 \<le> N \<Longrightarrow> py_round (missing * of_int N) \<le> N" using assms by (rule py_round_le)
  show "process_row N (py_round (missing * of_int N)) het (sid # p # r # a # genotypes)
      \<noteq> Inl ZeroDivisionError"
    using le by (rule process_row_no_zero_division)
  show "0 < N - int (count_list genotypes ''0'')"
    if "0 \<le> N \<and> int (count_list genotypes ''0'') < py_round (missing * of_int N)"
    using that le by auto
next
  assume b: "N < 2 ^ 53"
  have le: "0 \<le> N \<Longrightarrow> py_round (py_float (missing * py_float (of_int N))) \<le> N"
    using assms b by (intro nmissing_le)
  show "process_row N (py_round (py_float (missing * py_float (of_int N)))) het
      (sid # p # r # a # genotypes) \<noteq> Inl ZeroDivisionError"
    using le by (rule process_row_no_zero_division)
  show "0 < N - int (count_list genotypes ''0'')"
    if "0 \<le> N \<and> int (count_list genotypes ''0'')
          < py_round (py_float (missing * py_float (of_int N)))"
    using that le by auto
next
  assume h: "\<forall>hrow rest. read_header None fp = Inr (hrow, rest) \<longrightarrow>
               int (length (py_split hrow)) - 4 < 2 ^ 53"
  show "select_markers missing het fp \<noteq> Inl ZeroDivisionError"
  proof (cases "read_header None fp")
    case (Inl e)
    then have "e \<noteq> ZeroDivisionError" using read_header_no_zero_division [of None fp] by auto
    then show ?thesis using Inl by (simp add: select_markers_def)
  next
    case (Inr hr)
    obtain hrow rest where hr: "hr = (hrow, rest)" by (cases hr)
    define Nh where "Nh = int (length (py_split hrow)) - 4"
    define nm where "nm = py_round (py_float (missing * py_float (of_int Nh)))"
    have b: "Nh < 2 ^ 53" using h Inr hr by (simp add: Nh_def)
    have le: "0 \<le> Nh \<Longrightarrow> nm \<le> Nh" unfolding nm_def using assms b by (intro nmissing_le)
    have sm: "select_markers missing het fp =
        (case scan_rows Nh nm het rest [] of Inl e \<Rightarrow> Inl e | Inr d \<Rightarrow> Inr (py_sort d))"
      unfolding select_markers_def Inr hr nm_def Nh_def
      by (simp only: sum.case prod.case Let_def)
    show ?thesis
      unfolding sm using scan_rows_no_zero_division [OF le, of het rest "[]"]
      by (cases "scan_rows Nh nm het rest []") simp_all
  qed
qed

theorem hetratio_denominator_positive_witness:
  "(1 / 2 :: rat) \<le> 1 \<and> (0::int) \<le> 4 \<and> (4::int) < 2 ^ 53 \<and>
   int (count_list [''3'', ''3'', ''1'', ''0''] ''0'') < py_round (1 / 2 * of_int 4) \<and>
   int (count_list [''3'', ''3'', ''1'', ''0''] ''0'') < py_round (py_float (1 / 2 * py_float (of_int 4))) \<and>
   0 < 4 - int (count_list [''3'', ''3'', ''1'', ''0''] ''0'') \<and>
   process_row 4 (py_round (1 / 2 * of_int 4)) (1 / 2) [''ctg1'', ''100'', ''A'', ''G'', ''3'', ''3'', ''1'', ''0'']
     \<noteq> Inl ZeroDivisionError \<and>
   process_row 4 (py_round (py_float (1 / 2 * py_float (of_int 4)))) (1 / 2)
     [''ctg1'', ''100'', ''A'', ''G'', ''3'', ''3'', ''1'', ''0''] \<noteq> Inl ZeroDivisionError \<and>
   select_markers (1 / 2) (1 / 2) two_marker_matrix \<noteq> Inl ZeroDivisionError"
proof -
  have h: "(1 / 2 :: rat) \<le> 1" by simp
  have c1: "int (count_list [''3'', ''3'', ''1'', ''0''] ''0'') < py_round (1 / 2 * of_int 4)"
    by (simp add: round_2)
  have c2: "int (count_list [''3'', ''3'', ''1'', ''0''] ''0'')
      < py_round (py_float (1 / 2 * py_float (of_int 4)))"
    by (simp add: py_float_4 py_float_2 round_2)
  have b: "(4::int) < 2 ^ 53" by simp
  have hb: "\<forall>hrow rest. read_header None two_marker_matrix = Inr (hrow, rest) \<longrightarrow>
               int (length (py_split hrow)) - 4 < 2 ^ 53"
    by (simp add: two_marker_matrix_def py_split_def is_space_def)
  note t = hetratio_denominator_positive [OF h, of 4 "[''3'', ''3'', ''1'', ''0'']" "1 / 2"
        "''ctg1''" "''100''" "''A''" "''G''" two_marker_matrix]
  have p: "0 < 4 - int (count_list [''3'', ''3'', ''1'', ''0''] ''0'')" using t c1 by simp
  have r1: "process_row 4 (py_round (1 / 2 * of_int 4)) (1 / 2)
      [''ctg1'', ''100'', ''A'', ''G'', ''3'', ''3'', ''1'', ''0''] \<noteq> Inl ZeroDivisionError"
    using t by blast
  have r2: "process_row 4 (py_round (py_float (1 / 2 * py_float (of_int 4)))) (1 / 2)
      [''ctg1'', ''100'', ''A'', ''G'', ''3'', ''3'', ''1'', ''0''] \<noteq> Inl ZeroDivisionError"
    using t b by blast
  have r3: "select_markers (1 / 2) (1 / 2) two_marker_matrix \<noteq> Inl ZeroDivisionError"
    using t hb by blast
  show ?thesis using h b c1 c2 p r1 r2 r3 by (intro conjI) simp_all
qed

subsection \<open>\<open>HaplotypeResolver\<close>\<close>



lemma combinations2_map: "combinations2 (map f xs) = map (map_prod f f) (combinations2 xs)"
  by (induction xs) simp_all

lemma combinations2_mem:
  "(x, y) \<in> set (combinations2 xs) \<Longrightarrow> x \<in> set xs \<and> y \<in> set xs"
  by (induction xs) auto

lemma combinations2_neq:
  "distinct xs \<Longrightarrow> (x, y) \<in> set (combinations2 xs) \<Longrightarrow> x \<noteq> y"
  by (induction xs) (auto dest: combinations2_mem)

lemma filter_eq_distinct:
  "distinct xs \<Longrightarrow> length (filter (\<lambda>y. y = b) xs) = (if b \<in> set xs then 1 else 0)"
  by (induction xs) auto

lemma combinations2_absent:
  "a \<notin> set xs \<or> b \<notin> set xs \<Longrightarrow>
     filter (\<lambda>(x, y). (x = a \<and> y = b) \<or> (x = b \<and> y = a)) (combinations2 xs) = []"
  by (auto simp: filter_empty_conv dest: combinations2_mem)

lemma combinations2_once:
  "distinct xs \<Longrightarrow> a \<in> set xs \<Longrightarrow> b \<in> set xs \<Longrightarrow> a \<noteq> b \<Longrightarrow>
     length (filter (\<lambda>(x, y). (x = a \<and> y = b) \<or> (x = b \<and> y = a)) (combinations2 xs)) = 1"
proof (induction xs)
  case Nil
  then show ?case by simp
next
  case (Cons x xs)
  let ?P = "\<lambda>(x, y). (x = a \<and> y = b) \<or> (x = b \<and> y = a)"
  have dx: "distinct xs" and nx: "x \<notin> set xs" using Cons.prems(1) by simp_all
  consider (a) "x = a" | (b) "x = b" | (other) "x \<noteq> a" "x \<noteq> b" by blast
  then show ?case
  proof cases
    case a
    then have bin: "b \<in> set xs" and anot: "a \<notin> set xs" using Cons.prems nx by auto
    have "filter ?P (map (Pair x) xs) = map (Pair x) (filter (\<lambda>y. y = b) xs)"
      using a Cons.prems(4) by (simp add: filter_map comp_def)
    moreover have "filter ?P (combinations2 xs) = []"
      using anot by (intro combinations2_absent) simp
    ultimately show ?thesis using dx bin by (simp add: filter_eq_distinct)
  next
    case b
    then have ain: "a \<in> set xs" and bnot: "b \<notin> set xs" using Cons.prems nx by auto
    have "filter ?P (map (Pair x) xs) = map (Pair x) (filter (\<lambda>y. y = a) xs)"
      using b Cons.prems(4) by (simp add: filter_map comp_def)
    moreover have "filter ?P (combinations2 xs) = []"
      using bnot by (intro combinations2_absent) simp
    ultimately show ?thesis using dx ain by (simp add: filter_eq_distinct)
  next
    case other
    then have "filter ?P (map (Pair x) xs) = []"
      by (auto simp: filter_empty_conv)
    moreover have "a \<in> set xs" "b \<in> set xs" using other Cons.prems by auto
    ultimately show ?thesis using Cons.IH dx Cons.prems(4) by simp
  qed
qed

lemma solve_keys:
  "solve hr =
     map (\<lambda>(a, b). CoOccurrence a b (cooccur (haplotype_set hr) a b))
       (combinations2 (map fst (counter hr)))"
  by (simp add: solve_def combinations2_map case_prod_beta)

lemma record_of_pair_filter:
  "filter (record_of_pair a b) (map (\<lambda>(x, y). CoOccurrence x y (f x y)) ps) =
     map (\<lambda>(x, y). CoOccurrence x y (f x y))
       (filter (\<lambda>(x, y). (x = a \<and> y = b) \<or> (x = b \<and> y = a)) ps)"
  by (induction ps) auto

lemma cooccur_card:
  "cooccur hset a b = card {i. i < length hset \<and> a \<in> set (hset ! i) \<and> b \<in> set (hset ! i)}"
  by (simp add: cooccur_def length_filter_conv_card)

text \<open>
  \<^bold>\<open>C4.\<close> Every line that \<open>solve\<close> emits is the record of two different haplotype
  strings of the population counter, with the number of samples that contain both; and
  for any two different strings of the counter exactly one emitted line is the record of
  that unordered pair.
\<close>

theorem solve_unordered_pairs:
  fixes hset :: "string list list"
  defines "hr \<equiv> HaplotypeResolver hset"
  shows "(\<forall>l \<in> set (solve hr). \<exists>a b. a \<in> fst ` set (counter hr) \<and> b \<in> fst ` set (counter hr) \<and> a \<noteq> b \<and>
            l = CoOccurrence a b (card {i. i < length hset \<and> a \<in> set (hset ! i) \<and> b \<in> set (hset ! i)}))
       \<and> (\<forall>a \<in> fst ` set (counter hr). \<forall>b \<in> fst ` set (counter hr). a \<noteq> b \<longrightarrow>
            length (filter (record_of_pair a b) (solve hr)) = 1)"
proof (intro conjI ballI impI)
  have hs: "haplotype_set hr = hset" by (simp add: hr_def HaplotypeResolver_def)
  have dk: "distinct (map fst (counter hr))" by (simp add: hr_def resolver_distinct)
  {
    fix l assume "l \<in> set (solve hr)"
    then obtain a b where ab: "(a, b) \<in> set (combinations2 (map fst (counter hr)))"
      and l: "l = CoOccurrence a b (cooccur hset a b)"
      by (auto simp: solve_keys hs)
    have "a \<in> fst ` set (counter hr)" "b \<in> fst ` set (counter hr)"
      using combinations2_mem [OF ab] by simp_all
    moreover have "a \<noteq> b" using combinations2_neq [OF dk ab] .
    ultimately show "\<exists>a b. a \<in> fst ` set (counter hr) \<and> b \<in> fst ` set (counter hr) \<and> a \<noteq> b \<and>
            l = CoOccurrence a b (card {i. i < length hset \<and> a \<in> set (hset ! i) \<and> b \<in> set (hset ! i)})"
      using l by (auto simp: cooccur_card)
  }
  {
    fix a b assume "a \<in> fst ` set (counter hr)" "b \<in> fst ` set (counter hr)" "a \<noteq> b"
    then have "length (filter (\<lambda>(x, y). (x = a \<and> y = b) \<or> (x = b \<and> y = a))
                 (combinations2 (map fst (counter hr)))) = 1"
      using dk by (intro combinations2_once) simp_all
    then show "length (filter (record_of_pair a b) (solve hr)) = 1"
      by (simp add: solve_keys record_of_pair_filter)
  }
qed

theorem solve_unordered_pairs_witness:
  "''AT'' \<in> fst ` set (counter (HaplotypeResolver [[''AT'', ''GC''], [''AT''], [''GC'']])) \<and>
   ''GC'' \<in> fst ` set (counter (HaplotypeResolver [[''AT'', ''GC''], [''AT''], [''GC'']])) \<and>
   CoOccurrence ''AT'' ''GC'' 1 \<in> set (solve (HaplotypeResolver [[''AT'', ''GC''], [''AT''], [''GC'']])) \<and>
   length (filter (record_of_pair ''AT'' ''GC'')
     (solve (HaplotypeResolver [[''AT'', ''GC''], [''AT''], [''GC'']]))) = 1 \<and>
   length (filter (record_of_pair ''GC'' ''AT'')
     (solve (HaplotypeResolver [[''AT'', ''GC''], [''AT''], [''GC'']]))) = 1"
proof -
  let ?hr = "HaplotypeResolver [[''AT'', ''GC''], [''AT''], [''GC'']]"
  have k: "''AT'' \<in> fst ` set (counter ?hr)" "''GC'' \<in> fst ` set (counter ?hr)"
    by (simp_all add: HaplotypeResolver_def Counter_def Counter_update_def)
  have m: "CoOccurrence ''AT'' ''GC'' 1 \<in> set (solve ?hr)"
    by (simp add: HaplotypeResolver_def Counter_def Counter_update_def solve_def cooccur_def)
  have n: "''AT'' \<noteq> ''GC''" "''GC'' \<noteq> ''AT''" by simp_all
  note pairs = conjunct2 [OF solve_unordered_pairs [of "[[''AT'', ''GC''], [''AT''], [''GC'']]"], rule_format]
  have p1: "length (filter (record_of_pair ''AT'' ''GC'') (solve ?hr)) = 1"
    using k(1) k(2) n(1) by (rule pairs)
  have p2: "length (filter (record_of_pair ''GC'' ''AT'') (solve ?hr)) = 1"
    using k(2) k(1) n(2) by (rule pairs)
  show ?thesis
    by (intro conjI k m p1 p2)
qed

lemma cooccur_le_left: "cooccur hset a b \<le> length (filter (\<lambda>haplotypes. a \<in> set haplotypes) hset)"
  unfolding cooccur_def by (induction hset) auto

lemma cooccur_le_right: "cooccur hset a b \<le> length (filter (\<lambda>haplotypes. b \<in> set haplotypes) hset)"
  unfolding cooccur_def by (induction hset) auto

text \<open>
  \<^bold>\<open>C5.\<close> The count of every co-occurrence record that \<open>solve\<close> emits is at most
  the smaller of the population counts of its two haplotype strings, which are two
  different strings of the counter.
\<close>

theorem cooccurrence_le_min_frequency:
  fixes hset :: "string list list"
  defines "hr \<equiv> HaplotypeResolver hset"
  assumes "CoOccurrence a b n \<in> set (solve hr)"
  shows "n \<le> min (counter_get (counter hr) a) (counter_get (counter hr) b)
         \<and> a \<in> fst ` set (counter hr) \<and> b \<in> fst ` set (counter hr) \<and> a \<noteq> b"
proof -
  have hs: "haplotype_set hr = hset" by (simp add: hr_def HaplotypeResolver_def)
  have dk: "distinct (map fst (counter hr))" by (simp add: hr_def resolver_distinct)
  from assms(2) have ab: "(a, b) \<in> set (combinations2 (map fst (counter hr)))"
    and n: "n = cooccur hset a b"
    by (auto simp: solve_keys hs)
  have "n \<le> counter_get (counter hr) a"
    using n cooccur_le_left [of hset a b] samples_le_sum [of a hset]
    by (simp add: hr_def resolver_get)
  moreover have "n \<le> counter_get (counter hr) b"
    using n cooccur_le_right [of hset a b] samples_le_sum [of b hset]
    by (simp add: hr_def resolver_get)
  moreover have "a \<in> fst ` set (counter hr)" "b \<in> fst ` set (counter hr)"
    using combinations2_mem [OF ab] by simp_all
  moreover have "a \<noteq> b" using combinations2_neq [OF dk ab] .
  ultimately show ?thesis by simp
qed

theorem cooccurrence_le_min_frequency_witness:
  "CoOccurrence ''AT'' ''GC'' 1 \<in> set (solve (HaplotypeResolver [[''AT'', ''GC''], [''AT''], [''GC'']])) \<and>
   1 \<le> min (counter_get (counter (HaplotypeResolver [[''AT'', ''GC''], [''AT''], [''GC'']])) ''AT'')
           (counter_get (counter (HaplotypeResolver [[''AT'', ''GC''], [''AT''], [''GC'']])) ''GC'')"
proof -
  let ?hr = "HaplotypeResolver [[''AT'', ''GC''], [''AT''], [''GC'']]"
  have m: "CoOccurrence ''AT'' ''GC'' 1 \<in> set (solve ?hr)"
    by (simp add: HaplotypeResolver_def Counter_def Counter_update_def solve_def cooccur_def)
  show ?thesis
    using cooccurrence_le_min_frequency [OF m] m by blast
qed


text \<open>
  \<^bold>\<open>C8.\<close> The three samples with the haplotype sets \<open>{AT, GC}\<close>, \<open>{AT}\<close> and
  \<open>{GC}\<close> give the population counts \<open>AT = 2\<close> and \<open>GC = 2\<close> and the single
  co-occurrence record of \<open>AT\<close> and \<open>GC\<close> with count 1, whichever way the first set is
  enumerated.
\<close>

theorem scenario_three_samples:
  "counter (HaplotypeResolver [[''AT'', ''GC''], [''AT''], [''GC'']]) = [(''AT'', 2), (''GC'', 2)] \<and>
   solve (HaplotypeResolver [[''AT'', ''GC''], [''AT''], [''GC'']]) = [CoOccurrence ''AT'' ''GC'' 1] \<and>
   counter (HaplotypeResolver [[''GC'', ''AT''], [''AT''], [''GC'']]) = [(''GC'', 2), (''AT'', 2)] \<and>
   solve (HaplotypeResolver [[''GC'', ''AT''], [''AT''], [''GC'']]) = [CoOccurrence ''GC'' ''AT'' 1]"
  by (simp add: HaplotypeResolver_def Counter_def Counter_update_def solve_def cooccur_def)

subsection \<open>Sorting and grouping the markers\<close>

lemma key_le_trans: "key_le x y \<Longrightarrow> key_le y z \<Longrightarrow> key_le x z"
  by (auto simp: key_le_def)

lemma marker_lt_key_le: "marker_lt y x \<Longrightarrow> key_le y x"
  by (auto simp: marker_lt_def key_le_def split: if_splits)

lemma not_marker_lt_key_le: "\<not> marker_lt y x \<Longrightarrow> key_le x y"
  by (auto simp: marker_lt_def key_le_def split: if_splits)

lemma set_py_insort: "set (py_insort x ys) = insert x (set ys)"
  by (induction ys) auto

lemma count_py_insort: "count_list (py_insort x ys) m = count_list (x # ys) m"
  by (induction ys) auto

lemma count_py_sort: "count_list (py_sort xs) m = count_list xs m"
  by (induction xs) (auto simp: count_py_insort)

lemma sorted_py_insort: "sorted_wrt key_le ys \<Longrightarrow> sorted_wrt key_le (py_insort x ys)"
proof (induction ys)
  case Nil
  then show ?case by simp
next
  case (Cons y ys)
  show ?case
  proof (cases "marker_lt y x")
    case True
    then have "key_le y x" by (rule marker_lt_key_le)
    then show ?thesis using True Cons by (auto simp: set_py_insort)
  next
    case False
    then have xy: "key_le x y" by (rule not_marker_lt_key_le)
    have "\<forall>z \<in> set ys. key_le x z"
      using Cons.prems xy by (auto intro: key_le_trans)
    then show ?thesis using False Cons.prems xy by simp
  qed
qed

lemma sorted_py_sort: "sorted_wrt key_le (py_sort xs)"
  by (induction xs) (simp_all add: sorted_py_insort)

lemma groupby_sorted:
  "sorted_wrt R xs \<Longrightarrow> (k, d) \<in> set (groupby key xs) \<Longrightarrow> sorted_wrt R d"
proof (induction key xs rule: groupby.induct)
  case (1 key)
  then show ?case by simp
next
  case (2 key x xs)
  have tw: "sorted_wrt R (x # takeWhile (\<lambda>y. key y = key x) xs)"
    using "2.prems"(1) sorted_wrt_take [of R "x # xs" "Suc (length (takeWhile (\<lambda>y. key y = key x) xs))"]
    by (simp add: takeWhile_eq_take [symmetric])
  have dw: "sorted_wrt R (dropWhile (\<lambda>y. key y = key x) xs)"
    using "2.prems"(1) sorted_wrt_drop [of R xs "length (takeWhile (\<lambda>y. key y = key x) xs)"]
    by (simp add: dropWhile_eq_drop [symmetric])
  from "2.prems"(2) have "(k, d) = (key x, x # takeWhile (\<lambda>y. key y = key x) xs)
      \<or> (k, d) \<in> set (groupby key (dropWhile (\<lambda>y. key y = key x) xs))"
    by (simp only: groupby.simps list.set insert_iff)
  then consider
      (hd) "d = x # takeWhile (\<lambda>y. key y = key x) xs"
    | (tl) "(k, d) \<in> set (groupby key (dropWhile (\<lambda>y. key y = key x) xs))"
    by blast
  then show ?case
  proof cases
    case hd
    then show ?thesis using tw by simp
  next
    case tl
    with dw show ?thesis by (rule "2.IH")
  qed
qed

lemma groupby_key: "(k, d) \<in> set (groupby key xs) \<Longrightarrow> \<forall>m \<in> set d. key m = k"
proof (induction key xs rule: groupby.induct)
  case (1 key)
  then show ?case by simp
next
  case (2 key x xs)
  have tw: "\<forall>m \<in> set (takeWhile (\<lambda>y. key y = key x) xs). key m = key x"
    using set_takeWhileD by fastforce
  from "2.prems" have "(k, d) = (key x, x # takeWhile (\<lambda>y. key y = key x) xs)
      \<or> (k, d) \<in> set (groupby key (dropWhile (\<lambda>y. key y = key x) xs))"
    by (simp only: groupby.simps list.set insert_iff)
  then consider
      (hd) "k = key x" "d = x # takeWhile (\<lambda>y. key y = key x) xs"
    | (tl) "(k, d) \<in> set (groupby key (dropWhile (\<lambda>y. key y = key x) xs))"
    by blast
  then show ?case
  proof cases
    case hd
    show ?thesis
    proof
      fix m assume "m \<in> set d"
      then have "m = x \<or> m \<in> set (takeWhile (\<lambda>y. key y = key x) xs)"
        unfolding hd(2) by simp
      then show "key m = k" using tw hd(1) by blast
    qed
  next
    case tl
    then show ?thesis by (rule "2.IH")
  qed
qed

lemma groupby_distinct:
  "distinct (map f xs) \<Longrightarrow> (k, d) \<in> set (groupby key xs) \<Longrightarrow> distinct (map f d)"
proof (induction key xs rule: groupby.induct)
  case (1 key)
  then show ?case by simp
next
  case (2 key x xs)
  have dx: "distinct (map f xs)" and nx: "f x \<notin> f ` set xs" using "2.prems"(1) by simp_all
  have tw: "distinct (map f (takeWhile (\<lambda>y. key y = key x) xs))"
    using distinct_take [OF dx, of "length (takeWhile (\<lambda>y. key y = key x) xs)"]
    by (simp add: take_map takeWhile_eq_take [symmetric])
  have dw: "distinct (map f (dropWhile (\<lambda>y. key y = key x) xs))"
    using distinct_drop [OF dx, of "length (takeWhile (\<lambda>y. key y = key x) xs)"]
    by (simp add: drop_map dropWhile_eq_drop [symmetric])
  have nt: "f x \<notin> f ` set (takeWhile (\<lambda>y. key y = key x) xs)"
    using nx set_takeWhileD by fastforce
  from "2.prems"(2) have "(k, d) = (key x, x # takeWhile (\<lambda>y. key y = key x) xs)
      \<or> (k, d) \<in> set (groupby key (dropWhile (\<lambda>y. key y = key x) xs))"
    by (simp only: groupby.simps list.set insert_iff)
  then consider
      (hd) "d = x # takeWhile (\<lambda>y. key y = key x) xs"
    | (tl) "(k, d) \<in> set (groupby key (dropWhile (\<lambda>y. key y = key x) xs))"
    by blast
  then show ?case
  proof cases
    case hd
    then show ?thesis using tw nt by simp
  next
    case tl
    with dw show ?thesis by (rule "2.IH")
  qed
qed

lemma groupby_concat: "concat (map snd (groupby key xs)) = xs"
  by (induction key xs rule: groupby.induct) simp_all

lemma same_seqid_sorted:
  "sorted_wrt key_le d \<Longrightarrow> \<forall>m \<in> set d. m_seqid m = sid \<Longrightarrow> sorted (map m_pos d)"
  by (induction d) (auto simp: key_le_def)

lemma same_seqid_distinct:
  "distinct (map (\<lambda>m. (m_seqid m, m_pos m)) d) \<Longrightarrow> \<forall>m \<in> set d. m_seqid m = sid \<Longrightarrow>
     distinct (map m_pos d)"
  by (induction d) (auto simp: image_iff)

lemma select_markers_sorted:
  "select_markers missing het fp = Inr data \<Longrightarrow> \<exists>rows. data = py_sort rows"
  by (auto simp: select_markers_def Let_def split: sum.splits)
lemma dup_header: "py_split ''seqid pos ref alt s1 s2 s3 s4'' =
    [''seqid'', ''pos'', ''ref'', ''alt'', ''s1'', ''s2'', ''s3'', ''s4'']"
  by (simp add: py_split_def is_space_def)

lemma dup_row1: "py_split ''ctg1 100 A G 3 3 1 0'' = [''ctg1'', ''100'', ''A'', ''G'', ''3'', ''3'', ''1'', ''0'']"
  by (simp add: py_split_def is_space_def)

lemma dup_row2: "py_split ''ctg1 100 A G 3 3 3 1'' = [''ctg1'', ''100'', ''A'', ''G'', ''3'', ''3'', ''3'', ''1'']"
  by (simp add: py_split_def is_space_def)

lemma int_100: "py_int ''100'' = Inr 100"
  by (simp add: py_digits_def is_digit_def digits_val_def digit_val_def)

lemma dup_row1_marker:
  "process_row 4 2 (1 / 2) [''ctg1'', ''100'', ''A'', ''G'', ''3'', ''3'', ''1'', ''0''] =
     Inr (Some \<lparr>m_seqid = ''ctg1'', m_pos = 100, m_ref = ''A'', m_alt = ''G'',
                m_c = [(''3'', 2), (''1'', 1), (''0'', 1)],
                m_hetratio = 6004799503160661 / 9007199254740992\<rparr>)"
  by (simp add: int_100 Counter_def counter_get_def truediv_2_3 truediv_3_4 numeral_2_eq_2 numeral_3_eq_3
        del: py_int.simps)

lemma dup_row2_marker:
  "process_row 4 2 (1 / 2) [''ctg1'', ''100'', ''A'', ''G'', ''3'', ''3'', ''3'', ''1''] =
     Inr (Some \<lparr>m_seqid = ''ctg1'', m_pos = 100, m_ref = ''A'', m_alt = ''G'',
                m_c = [(''3'', 3), (''1'', 1)], m_hetratio = 3 / 4\<rparr>)"
  by (simp add: int_100 Counter_def counter_get_def truediv_2_3 truediv_3_4 numeral_2_eq_2 numeral_3_eq_3
        del: py_int.simps)

lemma dup_select:
  "\<exists>m1 m2. select_markers (1 / 2) (1 / 2) dup_matrix = Inr [m1, m2]
     \<and> m_seqid m1 = ''ctg1'' \<and> m_seqid m2 = ''ctg1'' \<and> m_pos m1 = 100 \<and> m_pos m2 = 100"
  unfolding select_markers_def dup_matrix_def
  by (simp add: dup_header dup_row1 dup_row2 py_float_4 py_float_2 round_2 dup_row1_marker dup_row2_marker
        del: process_row.simps)
lemma two_row1: "py_split ''ctg1 200 C T 3 3 3 1'' = [''ctg1'', ''200'', ''C'', ''T'', ''3'', ''3'', ''3'', ''1'']"
  by (simp add: py_split_def is_space_def)

lemma int_200: "py_int ''200'' = Inr 200"
  by (simp add: py_digits_def is_digit_def digits_val_def digit_val_def)

lemma two_row1_marker:
  "process_row 4 2 (1 / 2) [''ctg1'', ''200'', ''C'', ''T'', ''3'', ''3'', ''3'', ''1''] = Inr (Some marker_200)"
  by (simp add: int_200 Counter_def counter_get_def truediv_2_3 truediv_3_4 numeral_2_eq_2 numeral_3_eq_3
        marker_200_def del: py_int.simps)

lemma two_row2_marker:
  "process_row 4 2 (1 / 2) [''ctg1'', ''100'', ''A'', ''G'', ''3'', ''3'', ''1'', ''0''] = Inr (Some marker_100)"
  by (simp add: int_100 Counter_def counter_get_def truediv_2_3 truediv_3_4 numeral_2_eq_2 numeral_3_eq_3
        marker_100_def del: py_int.simps)

lemma marker_lt_100_200: "marker_lt marker_100 marker_200"
  by (simp add: marker_lt_def marker_100_def marker_200_def)

lemma two_select: "select_markers (1 / 2) (1 / 2) two_marker_matrix = Inr [marker_100, marker_200]"
  unfolding select_markers_def two_marker_matrix_def
  by (simp add: dup_header two_row1 dup_row1 py_float_4 py_float_2 round_2 two_row1_marker two_row2_marker marker_lt_100_200
        del: process_row.simps)

text \<open>
  \<^bold>\<open>C7, as stated, fails.\<close> Two selected rows with the same region and position are
  both kept: the region of \<open>dup_matrix\<close> has the positions \<open>100, 100\<close>, which are not
  strictly increasing, and nothing is collapsed.
\<close>

theorem duplicate_rows_not_collapsed:
  "region_positions (1 / 2) (1 / 2) dup_matrix = Inr [(''ctg1'', [100, 100])]"
proof -
  obtain m1 m2 where "select_markers (1 / 2) (1 / 2) dup_matrix = Inr [m1, m2]"
    "m_seqid m1 = ''ctg1''" "m_seqid m2 = ''ctg1''" "m_pos m1 = 100" "m_pos m2 = 100"
    using dup_select by blast
  then show ?thesis by (simp add: region_positions_def)
qed

lemma groupby_nonempty:
  "(k, d) \<in> set (groupby key xs) \<Longrightarrow> d \<noteq> [] \<and> set d \<subseteq> set xs"
proof (induction key xs rule: groupby.induct)
  case (1 key)
  then show ?case by simp
next
  case (2 key x xs)
  from "2.prems" have "(k, d) = (key x, x # takeWhile (\<lambda>y. key y = key x) xs)
      \<or> (k, d) \<in> set (groupby key (dropWhile (\<lambda>y. key y = key x) xs))"
    by (simp only: groupby.simps list.set insert_iff)
  then consider
      (hd) "d = x # takeWhile (\<lambda>y. key y = key x) xs"
    | (tl) "(k, d) \<in> set (groupby key (dropWhile (\<lambda>y. key y = key x) xs))"
    by blast
  then show ?case
  proof cases
    case hd
    have "set (takeWhile (\<lambda>y. key y = key x) xs) \<subseteq> set xs" by (rule set_takeWhileD [THEN conjunct1, THEN subsetI])
    then show ?thesis unfolding hd by auto
  next
    case tl
    have "set (dropWhile (\<lambda>y. key y = key x) xs) \<subseteq> set xs" by (rule set_dropWhileD [THEN subsetI])
    then show ?thesis using "2.IH" [OF tl] by auto
  qed
qed

lemma key_le_seqid: "key_le x y \<Longrightarrow> m_seqid x \<le> m_seqid y"
  by (auto simp: key_le_def)

lemma sorted_filter_takeWhile:
  "sorted_wrt key_le (x # xs) \<Longrightarrow>
     filter (\<lambda>y. m_seqid y = m_seqid x) xs = takeWhile (\<lambda>y. m_seqid y = m_seqid x) xs"
proof (induction xs)
  case Nil
  then show ?case by simp
next
  case (Cons y ys)
  have sx: "sorted_wrt key_le (x # ys)" using Cons.prems by simp
  show ?case
  proof (cases "m_seqid y = m_seqid x")
    case True
    then show ?thesis using Cons.IH [OF sx] by simp
  next
    case False
    have "m_seqid x \<le> m_seqid y" using Cons.prems by (simp add: key_le_seqid)
    then have lt: "m_seqid x < m_seqid y" using False by simp
    have "\<forall>z \<in> set ys. m_seqid y \<le> m_seqid z" using Cons.prems by (simp add: key_le_seqid)
    then have "\<forall>z \<in> set ys. m_seqid z \<noteq> m_seqid x" using lt by auto
    then have "filter (\<lambda>y. m_seqid y = m_seqid x) ys = []" by (simp add: filter_empty_conv)
    then show ?thesis using False by simp
  qed
qed

lemma filter_takeWhile_same: "filter P (takeWhile P xs) = takeWhile P xs"
  by (induction xs) auto

lemma filter_takeWhile_dropWhile:
  "filter P xs = filter P (takeWhile Q xs) @ filter P (dropWhile Q xs)"
  by (induction xs) auto

lemma filter_dropWhile_empty:
  assumes "sorted_wrt key_le (x # xs)"
  shows "filter (\<lambda>y. m_seqid y = m_seqid x) (dropWhile (\<lambda>y. m_seqid y = m_seqid x) xs) = []"
proof -
  let ?P = "\<lambda>y. m_seqid y = m_seqid x"
  have "filter ?P xs = takeWhile ?P xs @ filter ?P (dropWhile ?P xs)"
    using filter_takeWhile_dropWhile [of ?P xs ?P] by (simp only: filter_takeWhile_same)
  then have "takeWhile ?P xs = takeWhile ?P xs @ filter ?P (dropWhile ?P xs)"
    by (simp only: sorted_filter_takeWhile [OF assms])
  then show ?thesis by simp
qed

lemma dropWhile_later_seqid:
  assumes "sorted_wrt key_le (x # xs)"
    and "z \<in> set (dropWhile (\<lambda>y. m_seqid y = m_seqid x) xs)"
  shows "m_seqid z \<noteq> m_seqid x"
proof
  assume e: "m_seqid z = m_seqid x"
  have "z \<in> set (filter (\<lambda>y. m_seqid y = m_seqid x) (dropWhile (\<lambda>y. m_seqid y = m_seqid x) xs))"
    using assms(2) e by simp
  then show False by (simp only: filter_dropWhile_empty [OF assms(1)] list.set empty_iff)
qed

lemma groupby_filter:
  "sorted_wrt key_le xs \<Longrightarrow> (sid, d) \<in> set (groupby m_seqid xs) \<Longrightarrow>
     d = filter (\<lambda>m. m_seqid m = sid) xs"
proof (induction "m_seqid :: marker \<Rightarrow> string" xs rule: groupby.induct)
  case 1
  then show ?case by simp
next
  case (2 x xs)
  let ?P = "\<lambda>y. m_seqid y = m_seqid x"
  from "2.prems"(2) have "(sid, d) = (m_seqid x, x # takeWhile ?P xs)
      \<or> (sid, d) \<in> set (groupby m_seqid (dropWhile ?P xs))"
    by (simp only: groupby.simps list.set insert_iff)
  then consider
      (hd) "sid = m_seqid x" "d = x # takeWhile ?P xs"
    | (tl) "(sid, d) \<in> set (groupby m_seqid (dropWhile ?P xs))"
    by blast
  then show ?case
  proof cases
    case hd
    show ?thesis
      unfolding hd using sorted_filter_takeWhile [OF "2.prems"(1)] by simp
  next
    case tl
    have sd: "sorted_wrt key_le (dropWhile ?P xs)"
      using "2.prems"(1) sorted_wrt_drop [of key_le xs "length (takeWhile ?P xs)"]
      by (simp add: dropWhile_eq_drop [symmetric])
    have d: "d = filter (\<lambda>m. m_seqid m = sid) (dropWhile ?P xs)"
      using sd tl by (rule "2.hyps")
    from groupby_nonempty [OF tl] groupby_key [OF tl] obtain z where
      z: "z \<in> set (dropWhile ?P xs)" "m_seqid z = sid"
      by (cases d) auto
    have ne: "sid \<noteq> m_seqid x"
      using dropWhile_later_seqid [OF "2.prems"(1) z(1)] z(2) by simp
    have "\<forall>y \<in> set (takeWhile ?P xs). m_seqid y \<noteq> sid"
    proof
      fix y assume "y \<in> set (takeWhile ?P xs)"
      then have "m_seqid y = m_seqid x" by (rule set_takeWhileD [THEN conjunct2])
      then show "m_seqid y \<noteq> sid" using ne by simp
    qed
    then have e: "filter (\<lambda>m. m_seqid m = sid) (takeWhile ?P xs) = []"
      by (simp add: filter_empty_conv)
    have "filter (\<lambda>m. m_seqid m = sid) xs = filter (\<lambda>m. m_seqid m = sid) (dropWhile ?P xs)"
      using filter_takeWhile_dropWhile [of "\<lambda>m. m_seqid m = sid" xs ?P] e by simp
    then show ?thesis using d ne by simp
  qed
qed

text \<open>
  \<^bold>\<open>C7, amended.\<close> The markers grouped into one region's marker set are exactly the
  selected rows that carry the region's identifier, at least one, in non-decreasing
  order of position; the positions of a region are strictly increasing exactly when no
  two selected rows of that region have the same position. Sorting and grouping drop no
  row: the groups concatenate to the sorted list, which holds every selected row as
  often as the data loop appended it.
\<close>

theorem region_positions_nondecreasing:
  assumes "select_markers missing het fp = Inr data"
    and "(sid, d) \<in> set (groupby m_seqid data)"
  shows "d = filter (\<lambda>m. m_seqid m = sid) data
       \<and> d \<noteq> []
       \<and> sorted (map m_pos d)
       \<and> (sorted_wrt (<) (map m_pos d) \<longleftrightarrow> distinct (map m_pos d))
       \<and> concat (map snd (groupby m_seqid data)) = data
       \<and> (\<forall>rows m. count_list (py_sort rows) m = count_list rows m)"
proof -
  obtain rows where "data = py_sort rows"
    using select_markers_sorted [OF assms(1)] by blast
  then have sd: "sorted_wrt key_le data" by (simp add: sorted_py_sort)
  have f: "d = filter (\<lambda>m. m_seqid m = sid) data" using sd assms(2) by (rule groupby_filter)
  have n: "d \<noteq> []" using groupby_nonempty [OF assms(2)] by simp
  have kd: "sorted_wrt key_le d" using sd assms(2) by (rule groupby_sorted)
  have sid: "\<forall>m \<in> set d. m_seqid m = sid" using assms(2) by (rule groupby_key)
  have s: "sorted (map m_pos d)" using kd sid by (rule same_seqid_sorted)
  have i: "sorted_wrt (<) (map m_pos d) \<longleftrightarrow> distinct (map m_pos d)"
    using s by (simp add: strict_sorted_iff)
  show ?thesis
    using f n s i by (simp add: groupby_concat count_py_sort)
qed

theorem region_positions_nondecreasing_witness:
  "select_markers (1 / 2) (1 / 2) two_marker_matrix = Inr [marker_100, marker_200] \<and>
   (''ctg1'', [marker_100, marker_200]) \<in> set (groupby m_seqid [marker_100, marker_200]) \<and>
   distinct (map m_pos [marker_100, marker_200]) \<and>
   sorted_wrt (<) (map m_pos [marker_100, marker_200]) \<and>
   [marker_100, marker_200] = filter (\<lambda>m. m_seqid m = ''ctg1'') [marker_100, marker_200]"
proof -
  have g: "(''ctg1'', [marker_100, marker_200]) \<in> set (groupby m_seqid [marker_100, marker_200])"
    by (simp add: marker_100_def marker_200_def)
  have d: "distinct (map m_pos [marker_100, marker_200])"
    by (simp add: marker_100_def marker_200_def)
  note t = region_positions_nondecreasing [OF two_select g]
  have "sorted_wrt (<) (map m_pos [marker_100, marker_200])"
    using t d by blast
  moreover have "[marker_100, marker_200] = filter (\<lambda>m. m_seqid m = ''ctg1'') [marker_100, marker_200]"
    using t by blast
  ultimately show ?thesis using two_select g d by (intro conjI)
qed

subsection \<open>The rows after the header\<close>

lemma two_header: "read_header None two_marker_matrix =
    Inr (''seqid pos ref alt s1 s2 s3 s4'', [''ctg1 200 C T 3 3 3 1''] @ ''ctg1 100 A G 3 3 1 0'' # [])"
  by (simp add: two_marker_matrix_def)

lemma hash_header: "read_header None hash_header_matrix = Inr (''ctg1 100 A G 3 3 1 0'', [])"
  by (simp add: hash_header_matrix_def)

lemma hash_select: "select_markers (1 / 2) (1 / 2) hash_header_matrix = Inr []"
  by (simp add: select_markers_def hash_header)

text \<open>
  \<^bold>\<open>C1, as stated, fails.\<close> The header loop skips the lines that start with \<open>#\<close>
  and takes the next line as the header. In \<open>hash_header_matrix\<close> the header line starts
  with \<open>#\<close>, so the data row \<open>ctg1 100 A G 3 3 1 0\<close> is taken as the header: it is
  never materialized, although its missing count 1 is below the threshold 2 and its
  heterozygosity ratio is above \<open>1 / 2\<close>.
\<close>

theorem header_row_not_materialized:
  "read_header None hash_header_matrix = Inr (''ctg1 100 A G 3 3 1 0'', []) \<and>
   select_markers (1 / 2) (1 / 2) hash_header_matrix = Inr [] \<and>
   resolve (1 / 2) (1 / 2) hash_header_matrix [no_coverage] = ([], None) \<and>
   py_split ''ctg1 100 A G 3 3 1 0'' = [''ctg1'', ''100'', ''A'', ''G'', ''3'', ''3'', ''1'', ''0''] \<and>
   int (count_list [''3'', ''3'', ''1'', ''0''] ''0'') < py_round (py_float (1 / 2 * py_float (of_int 4))) \<and>
   py_truediv (int (count_list [''3'', ''3'', ''1'', ''0''] ''3''))
      (4 - int (count_list [''3'', ''3'', ''1'', ''0''] ''0''))
     = Inr (6004799503160661 / 9007199254740992) \<and>
   (1 / 2 :: rat) < 6004799503160661 / 9007199254740992"
proof -
  have "resolve (1 / 2) (1 / 2) hash_header_matrix [no_coverage] = ([], None)"
    by (simp add: resolve_def hash_select)
  moreover have "int (count_list [''3'', ''3'', ''1'', ''0''] ''0'')
      < py_round (py_float (1 / 2 * py_float (of_int 4)))"
    by (simp add: py_float_4 py_float_2 round_2)
  moreover have "py_truediv (int (count_list [''3'', ''3'', ''1'', ''0''] ''3''))
      (4 - int (count_list [''3'', ''3'', ''1'', ''0''] ''0''))
     = Inr (6004799503160661 / 9007199254740992)"
    by (simp add: truediv_2_3)
  moreover have "(1 / 2 :: rat) < 6004799503160661 / 9007199254740992" by simp
  ultimately show ?thesis using hash_header hash_select dup_row1 by (intro conjI)
qed

text \<open>
  \<^bold>\<open>C1, amended.\<close> The header is the first line that does not start with \<open>#\<close>.
  When the marker selection of \<open>resolve\<close> returns, every well-formed data row after
  the header (not a comment, four leading columns with a numeric position, as many
  columns as the header, \<open>N\<close> of them genotypes) contributes its marker to \<open>data\<close>
  exactly when its count of \<open>'0'\<close> codes is strictly below \<open>int(round(missing * N))\<close>
  and its heterozygosity ratio, the count of \<open>'3'\<close> codes divided by \<open>N\<close> minus the
  missing count, exists and is strictly above the threshold, the product and the
  quotient being the rounded doubles; otherwise, in particular at either threshold, it
  contributes nothing. \<open>data\<close> is the sorted list of the markers of the rows before,
  of this row and of the rows after.
\<close>

theorem marker_selected_iff:
  assumes "read_header None fp = Inr (hrow, pre @ row # post)"
    and "select_markers missing het fp = Inr data"
    and "row \<noteq> []" and "hd row \<noteq> CHR ''#''"
    and "py_split row = sid # p # r # a # genotypes"
    and "py_int p = Inr n"
    and "length (py_split hrow) = length (py_split row)"
  shows "let N = int (length genotypes);
             nmissing = py_round (py_float (missing * py_float (of_int N)));
             c0 = int (count_list genotypes ''0'');
             c3 = int (count_list genotypes ''3'')
         in \<exists>d1 d2.
              scan_rows N nmissing het pre [] = Inr d1 \<and>
              scan_rows N nmissing het post [] = Inr d2 \<and>
              (if c0 < nmissing \<and> (\<exists>q. py_truediv c3 (N - c0) = Inr q \<and> het < q)
               then \<exists>q. py_truediv c3 (N - c0) = Inr q \<and>
                      data = py_sort (d1 @ [\<lparr>m_seqid = sid, m_pos = n, m_ref = r, m_alt = a,
                                             m_c = Counter genotypes, m_hetratio = q\<rparr>] @ d2)
               else data = py_sort (d1 @ d2))"
proof -
  define N where "N = int (length genotypes)"
  define nm where "nm = py_round (py_float (missing * py_float (of_int N)))"
  define c0 where "c0 = int (count_list genotypes ''0'')"
  define c3 where "c3 = int (count_list genotypes ''3'')"
  have Nh: "int (length (py_split hrow)) - 4 = N"
    using assms(5,7) by (simp add: N_def)
  have sm: "select_markers missing het fp =
      (case scan_rows N nm het (pre @ row # post) [] of
         Inl e \<Rightarrow> Inl e | Inr d \<Rightarrow> Inr (py_sort d))"
    unfolding select_markers_def assms(1) nm_def
    by (simp only: sum.case prod.case Let_def Nh)
  obtain rows where
    sc: "scan_rows N nm het (pre @ row # post) [] = Inr rows" and
    data: "data = py_sort rows"
    using assms(2) unfolding sm
    by (cases "scan_rows N nm het (pre @ row # post) []") simp_all
  from sc obtain d1 where
    d1: "scan_rows N nm het pre [] = Inr d1" and
    s1: "scan_rows N nm het (row # post) d1 = Inr rows"
    by (auto simp: scan_rows_append split: sum.splits)
  have pr: "process_row N nm het (py_split row) =
     (if nm \<le> c0 then Inr None
      else (case py_truediv c3 (N - c0) of
              Inl e \<Rightarrow> Inl e
            | Inr q \<Rightarrow>
                if q \<le> het then Inr None
                else Inr (Some \<lparr>m_seqid = sid, m_pos = n, m_ref = r, m_alt = a,
                                m_c = Counter genotypes, m_hetratio = q\<rparr>)))"
    unfolding assms(5) process_row_cases c0_def c3_def
    by (simp add: assms(6) split: sum.splits)
  note one = scan_rows_one [OF assms(3,4), of N nm het post d1]
  show ?thesis
  proof (cases "c0 < nm \<and> (\<exists>q. py_truediv c3 (N - c0) = Inr q \<and> het < q)")
    case True
    then obtain q where q: "py_truediv c3 (N - c0) = Inr q" "het < q" by blast
    let ?m = "\<lparr>m_seqid = sid, m_pos = n, m_ref = r, m_alt = a,
                m_c = Counter genotypes, m_hetratio = q\<rparr>"
    have "process_row N nm het (py_split row) = Inr (Some ?m)"
      using True q by (simp add: pr)
    then have "scan_rows N nm het post (d1 @ [?m]) = Inr rows"
      using s1 one by simp
    then obtain d2 where d2: "scan_rows N nm het post [] = Inr d2" and
      rows: "rows = (d1 @ [?m]) @ d2"
      using scan_rows_acc [of N nm het post "d1 @ [?m]"] by (auto split: sum.splits)
    have "data = py_sort (d1 @ [?m] @ d2)" using data rows by simp
    then show ?thesis
      unfolding Let_def N_def [symmetric] nm_def [symmetric] c0_def [symmetric] c3_def [symmetric]
      using True d1 d2 q(1) by auto
  next
    case False
    have "process_row N nm het (py_split row) \<noteq> Inl e" for e
    proof
      assume e: "process_row N nm het (py_split row) = Inl e"
      then show False using s1 one by simp
    qed
    note noerr = this
    have "process_row N nm het (py_split row) = Inr None"
    proof (cases "nm \<le> c0")
      case True
      then show ?thesis by (simp add: pr)
    next
      case lt: False
      show ?thesis
      proof (cases "py_truediv c3 (N - c0)")
        case (Inl x)
        then have "process_row N nm het (py_split row) = Inl x" using lt by (simp add: pr)
        then show ?thesis using noerr by simp
      next
        case (Inr q)
        then have "q \<le> het" using False lt by auto
        then show ?thesis using lt Inr by (simp add: pr)
      qed
    qed
    then have "scan_rows N nm het post d1 = Inr rows"
      using s1 one by simp
    then obtain d2 where d2: "scan_rows N nm het post [] = Inr d2" and
      rows: "rows = d1 @ d2"
      using scan_rows_acc [of N nm het post d1] by (auto split: sum.splits)
    have "data = py_sort (d1 @ d2)" using data rows by simp
    then show ?thesis
      unfolding Let_def N_def [symmetric] nm_def [symmetric] c0_def [symmetric] c3_def [symmetric]
      using False d1 d2 by auto
  qed
qed

theorem marker_selected_iff_witness:
  "read_header None two_marker_matrix =
     Inr (''seqid pos ref alt s1 s2 s3 s4'', [''ctg1 200 C T 3 3 3 1''] @ ''ctg1 100 A G 3 3 1 0'' # []) \<and>
   select_markers (1 / 2) (1 / 2) two_marker_matrix = Inr [marker_100, marker_200] \<and>
   py_split ''ctg1 100 A G 3 3 1 0'' = [''ctg1'', ''100'', ''A'', ''G'', ''3'', ''3'', ''1'', ''0''] \<and>
   py_int ''100'' = Inr 100 \<and>
   int (count_list [''3'', ''3'', ''1'', ''0''] ''0'') < py_round (py_float (1 / 2 * py_float (of_int 4))) \<and>
   py_truediv (int (count_list [''3'', ''3'', ''1'', ''0''] ''3''))
      (4 - int (count_list [''3'', ''3'', ''1'', ''0''] ''0''))
     = Inr (6004799503160661 / 9007199254740992) \<and>
   (1 / 2 :: rat) < 6004799503160661 / 9007199254740992 \<and>
   (\<exists>d1 d2. scan_rows 4 2 (1 / 2) [''ctg1 200 C T 3 3 3 1''] [] = Inr d1 \<and>
            scan_rows 4 2 (1 / 2) [] [] = Inr d2 \<and>
            [marker_100, marker_200] = py_sort (d1 @ [marker_100] @ d2))"
proof -
  have ne: "''ctg1 100 A G 3 3 1 0'' \<noteq> []" by simp
  have h: "hd ''ctg1 100 A G 3 3 1 0'' \<noteq> CHR ''#''" by simp
  have cols: "length (py_split ''seqid pos ref alt s1 s2 s3 s4'') = length (py_split ''ctg1 100 A G 3 3 1 0'')"
    by (simp add: dup_header dup_row1)
  have c: "int (count_list [''3'', ''3'', ''1'', ''0''] ''0'')
      < py_round (py_float (1 / 2 * py_float (of_int 4)))"
    by (simp add: py_float_4 py_float_2 round_2)
  have q: "py_truediv (int (count_list [''3'', ''3'', ''1'', ''0''] ''3''))
      (4 - int (count_list [''3'', ''3'', ''1'', ''0''] ''0''))
     = Inr (6004799503160661 / 9007199254740992)"
    by (simp add: truediv_2_3)
  have lt: "(1 / 2 :: rat) < 6004799503160661 / 9007199254740992" by simp
  have N: "int (length [''3'', ''3'', ''1'', ''0'']) = 4" by simp
  have nm: "py_round (py_float (1 / 2 * py_float (of_int 4))) = 2"
    by (simp add: py_float_4 py_float_2 round_2)
  have m: "\<lparr>m_seqid = ''ctg1'', m_pos = 100, m_ref = ''A'', m_alt = ''G'',
             m_c = Counter [''3'', ''3'', ''1'', ''0''],
             m_hetratio = 6004799503160661 / 9007199254740992\<rparr> = marker_100"
    by (simp add: marker_100_def Counter_def numeral_2_eq_2)
  note t = marker_selected_iff [OF two_header two_select ne h dup_row1 int_100 cols,
      unfolded Let_def N nm]
  then obtain d1 d2 where
    d1: "scan_rows 4 2 (1 / 2) [''ctg1 200 C T 3 3 3 1''] [] = Inr d1" and
    d2: "scan_rows 4 2 (1 / 2) [] [] = Inr d2" and
    cnd: "if int (count_list [''3'', ''3'', ''1'', ''0''] ''0'') < 2 \<and>
             (\<exists>q. py_truediv (int (count_list [''3'', ''3'', ''1'', ''0''] ''3''))
                    (4 - int (count_list [''3'', ''3'', ''1'', ''0''] ''0'')) = Inr q \<and> 1 / 2 < q)
          then \<exists>q. py_truediv (int (count_list [''3'', ''3'', ''1'', ''0''] ''3''))
                    (4 - int (count_list [''3'', ''3'', ''1'', ''0''] ''0'')) = Inr q \<and>
                 [marker_100, marker_200] =
                   py_sort (d1 @ [\<lparr>m_seqid = ''ctg1'', m_pos = 100, m_ref = ''A'', m_alt = ''G'',
                                   m_c = Counter [''3'', ''3'', ''1'', ''0''], m_hetratio = q\<rparr>] @ d2)
          else [marker_100, marker_200] = py_sort (d1 @ d2)"
    by blast
  have cond: "int (count_list [''3'', ''3'', ''1'', ''0''] ''0'') < 2 \<and>
             (\<exists>q. py_truediv (int (count_list [''3'', ''3'', ''1'', ''0''] ''3''))
                    (4 - int (count_list [''3'', ''3'', ''1'', ''0''] ''0'')) = Inr q \<and> 1 / 2 < q)"
    using c [unfolded nm] q lt by blast
  from cnd cond obtain q' where
    q': "py_truediv (int (count_list [''3'', ''3'', ''1'', ''0''] ''3''))
           (4 - int (count_list [''3'', ''3'', ''1'', ''0''] ''0'')) = Inr q'" and
    s: "[marker_100, marker_200] =
          py_sort (d1 @ [\<lparr>m_seqid = ''ctg1'', m_pos = 100, m_ref = ''A'', m_alt = ''G'',
                          m_c = Counter [''3'', ''3'', ''1'', ''0''], m_hetratio = q'\<rparr>] @ d2)"
    by (simp only: if_True simp_thms) blast
  have "Inr q' = (Inr (6004799503160661 / 9007199254740992) :: error + rat)"
    unfolding q' [symmetric] by (rule q)
  then have qe: "q' = 6004799503160661 / 9007199254740992" by (simp only: sum.inject)
  have "[marker_100, marker_200] = py_sort (d1 @ [marker_100] @ d2)"
    using s unfolding qe m .
  then have e: "\<exists>d1 d2. scan_rows 4 2 (1 / 2) [''ctg1 200 C T 3 3 3 1''] [] = Inr d1 \<and>
            scan_rows 4 2 (1 / 2) [] [] = Inr d2 \<and>
            [marker_100, marker_200] = py_sort (d1 @ [marker_100] @ d2)"
    using d1 d2 by blast
  show ?thesis
    using two_header two_select dup_row1 int_100 c q lt e by (intro conjI)
qed

subsection \<open>Failing pileups and empty regions\<close>

lemma scan_markers_fail:
  "sam sid = Inl e \<Longrightarrow> d \<noteq> [] \<Longrightarrow> scan_markers sam sid d reads positions = Inl e"
  by (cases d) simp_all

lemma sample_haplotypes_fail:
  "sam sid = Inl e \<Longrightarrow> d \<noteq> [] \<Longrightarrow> sample_haplotypes sam sid d = Inl e"
  by (simp add: sample_haplotypes_def scan_markers_fail)

lemma region_haplotypes_fail:
  assumes "sam sid = Inl e" and "d \<noteq> []"
    and "\<forall>s \<in> set pre. \<exists>h. sample_haplotypes s sid d = Inr h"
  shows "region_haplotypes (pre @ sam # post) sid d hset = Inl e"
  using assms(3)
proof (induction pre arbitrary: hset)
  case Nil
  then show ?case using assms(1,2) by (simp add: sample_haplotypes_fail)
next
  case (Cons s pre)
  then obtain h where "sample_haplotypes s sid d = Inr h" by auto
  then show ?case using Cons by simp
qed
lemma no_coverage_100: "sample_haplotypes no_coverage ''ctg1'' [marker_100] = Inr []"
  by (simp add: sample_haplotypes_def no_coverage_def)

text \<open>
  \<^bold>\<open>C6, as stated, fails.\<close> When the first sample cannot resolve the region, no
  empty haplotype set is recorded for it: the exception leaves \<open>resolve\<close>, the region
  is not reported and the second sample is never asked.
\<close>

theorem pileup_failure_not_tolerated:
  "sample_haplotypes no_reference ''ctg1'' [marker_100] \<noteq> Inr [] \<and>
   resolve_regions [no_reference, no_coverage] [(''ctg1'', [marker_100])] [] = ([], Some PileupError) \<and>
   resolve_regions [no_reference, no_coverage] [(''ctg1'', [marker_100])] []
     \<noteq> ([Summary ''ctg1'' []], None)"
  by (simp add: sample_haplotypes_def no_reference_def)

text \<open>
  \<^bold>\<open>C6, amended.\<close> When a sample's pileup accessor raises for a region (and the
  samples before it succeeded), the exception is raised by the sample's extraction, by
  the region's extraction and by the loop over the regions: nothing is written for this
  region or any later one, what was written before stays.
\<close>

theorem pileup_failure_aborts:
  assumes "sam sid = Inl e" and "d \<noteq> []"
    and "\<forall>s \<in> set pre. \<exists>h. sample_haplotypes s sid d = Inr h"
  shows "sample_haplotypes sam sid d = Inl e
       \<and> region_haplotypes (pre @ sam # post) sid d [] = Inl e
       \<and> resolve_regions (pre @ sam # post) ((sid, d) # groups) out = (out, Some e)"
  using assms by (simp add: sample_haplotypes_fail region_haplotypes_fail)

theorem pileup_failure_aborts_witness:
  "no_reference ''ctg1'' = Inl PileupError \<and>
   sample_haplotypes no_coverage ''ctg1'' [marker_100] = Inr [] \<and>
   sample_haplotypes no_reference ''ctg1'' [marker_100] = Inl PileupError \<and>
   resolve_regions [no_coverage, no_reference, no_coverage] [(''ctg1'', [marker_100]), (''ctg2'', [marker_100])] []
     = ([], Some PileupError)"
proof -
  have f: "no_reference ''ctg1'' = Inl PileupError" by (simp add: no_reference_def)
  have p: "\<forall>s \<in> set [no_coverage]. \<exists>h. sample_haplotypes s ''ctg1'' [marker_100] = Inr h"
    by (simp add: no_coverage_100)
  have n: "[marker_100] \<noteq> []" by simp
  note r = pileup_failure_aborts [of no_reference "''ctg1''" PileupError "[marker_100]" "[no_coverage]"
      "[no_coverage]" "[(''ctg2'', [marker_100])]" "[]", OF f n p]
  show ?thesis using r f no_coverage_100 by simp
qed

text \<open>
  \<^bold>\<open>C9.\<close> When the extraction of a region succeeds and every sample's haplotype set
  is empty, the population counter is empty, \<open>solve\<close> emits nothing, the summary line
  of the region is written with the empty counter, and the loop goes on to the next
  region; as the last region it ends the run without an exception.
\<close>

theorem empty_region_reported:
  assumes "region_haplotypes sams sid d [] = Inr hset"
    and "\<forall>haplotypes \<in> set hset. haplotypes = []"
  shows "counter (HaplotypeResolver hset) = []
       \<and> solve (HaplotypeResolver hset) = []
       \<and> resolve_regions sams ((sid, d) # groups) out
            = resolve_regions sams groups (out @ [Summary sid []])
       \<and> resolve_regions sams [(sid, d)] out = (out @ [Summary sid []], None)"
proof -
  have "fold (\<lambda>haplotypes cnt. Counter_update cnt (Counter haplotypes)) hset c = c" for c
    using assms(2) by (induction hset) (simp_all add: Counter_def Counter_update_def)
  then have c: "counter (HaplotypeResolver hset) = []"
    by (simp add: HaplotypeResolver_def)
  then have s: "solve (HaplotypeResolver hset) = []"
    by (simp add: solve_def)
  show ?thesis using assms(1) c s by (simp add: Let_def)
qed

theorem empty_region_reported_witness:
  "region_haplotypes [no_coverage, no_coverage] ''ctg1'' [marker_100] [] = Inr [[], []] \<and>
   resolve_regions [no_coverage, no_coverage] [(''ctg1'', [marker_100])] [] = ([Summary ''ctg1'' []], None)"
proof -
  have r: "region_haplotypes [no_coverage, no_coverage] ''ctg1'' [marker_100] [] = Inr [[], []]"
    by (simp add: no_coverage_100)
  have e: "\<forall>haplotypes \<in> set [[], [] :: string list]. haplotypes = []" by simp
  show ?thesis using empty_region_reported [OF r e, of "[]" "[]"] r by simp
qed

subsection \<open>Per-read haplotypes\<close>

lemma obs_of_append:
  "obs_of (reads_append rs rname x) k = (if k = rname then obs_of rs k @ [x] else obs_of rs k)"
  by (induction rs rname x rule: reads_append.induct) (auto simp: obs_of_def)

lemma keys_reads_append:
  "map fst (reads_append rs rname x) =
     (if rname \<in> set (map fst rs) then map fst rs else map fst rs @ [rname])"
  by (induction rs rname x rule: reads_append.induct) auto

lemma distinct_reads_append:
  "distinct (map fst rs) \<Longrightarrow> distinct (map fst (reads_append rs rname x))"
  by (simp add: keys_reads_append)

lemma py_getitem_mem: "py_getitem s idx = Inr ch \<Longrightarrow> ch \<in> set s"
  by (auto simp: py_getitem_def Let_def split: option.splits if_splits)

lemma scan_pileups_obs:
  "scan_pileups p rs reads = Inr reads' \<Longrightarrow>
     fst ` set (obs_of reads' k) =
       fst ` set (obs_of reads k) \<union> (if k \<in> query_name ` set rs then {p} else {})
     \<and> snd ` set (obs_of reads' k) \<subseteq>
       snd ` set (obs_of reads k) \<union> (\<Union>r \<in> set rs. set (query_sequence r))
     \<and> (distinct (map fst reads) \<longrightarrow> distinct (map fst reads'))"
proof (induction p rs reads rule: scan_pileups.induct)
  case (1 p reads)
  then show ?case by simp
next
  case (2 p r rs reads)
  from "2.prems" obtain rbase where
    g: "py_getitem (query_sequence r) (query_position r) = Inr rbase" and
    s: "scan_pileups p rs (reads_append reads (query_name r) (p, rbase)) = Inr reads'"
    by (auto split: sum.splits)
  have b: "rbase \<in> set (query_sequence r)" using g by (rule py_getitem_mem)
  note ih = "2.IH" [OF g s]
  show ?case
  proof (intro conjI)
    show "fst ` set (obs_of reads' k) =
       fst ` set (obs_of reads k) \<union> (if k \<in> query_name ` set (r # rs) then {p} else {})"
      using ih by (auto simp: obs_of_append split: if_splits)
    show "snd ` set (obs_of reads' k) \<subseteq>
       snd ` set (obs_of reads k) \<union> (\<Union>r \<in> set (r # rs). set (query_sequence r))"
      using ih b by (auto simp: obs_of_append split: if_splits)
    show "distinct (map fst reads) \<longrightarrow> distinct (map fst reads')"
      using ih by (simp add: distinct_reads_append)
  qed
qed

lemma scan_columns_obs:
  "scan_columns p cols reads = Inr reads' \<Longrightarrow>
     fst ` set (obs_of reads' k) =
       fst ` set (obs_of reads k) \<union> (if observed cols k p then {p} else {})
     \<and> snd ` set (obs_of reads' k) \<subseteq> snd ` set (obs_of reads k) \<union> bases cols
     \<and> (distinct (map fst reads) \<longrightarrow> distinct (map fst reads'))"
proof (induction p cols reads rule: scan_columns.induct)
  case (1 p reads)
  then show ?case by (simp add: observed_def)
next
  case (2 p col cols reads)
  show ?case
  proof (cases "reference_pos col \<noteq> p - 1")
    case True
    then have s: "scan_columns p cols reads = Inr reads'" using "2.prems" by simp
    have o: "observed (col # cols) k p = observed cols k p"
      using True by (simp add: observed_def)
    have b: "bases cols \<subseteq> bases (col # cols)" by (auto simp: bases_def)
    show ?thesis using "2.IH"(1) [OF True s] b unfolding o by blast
  next
    case False
    then obtain reads1 where
      sp: "scan_pileups p (pileups col) reads = Inr reads1" and
      sc: "scan_columns p cols reads1 = Inr reads'"
      using "2.prems" by (auto split: sum.splits)
    note h1 = scan_pileups_obs [OF sp, of k]
    note h2 = "2.IH"(2) [OF False sp sc]
    have o: "observed (col # cols) k p \<longleftrightarrow> k \<in> query_name ` set (pileups col) \<or> observed cols k p"
      using False by (auto simp: observed_def)
    have b: "bases (col # cols) = (\<Union>r \<in> set (pileups col). set (query_sequence r)) \<union> bases cols"
      by (simp add: bases_def)
    show ?thesis
    proof (intro conjI)
      show "fst ` set (obs_of reads' k) =
          fst ` set (obs_of reads k) \<union> (if observed (col # cols) k p then {p} else {})"
        using h1 h2 unfolding o by (auto split: if_splits)
      show "snd ` set (obs_of reads' k) \<subseteq> snd ` set (obs_of reads k) \<union> bases (col # cols)"
        using h1 h2 unfolding b by blast
      show "distinct (map fst reads) \<longrightarrow> distinct (map fst reads')"
        using h1 h2 by blast
    qed
  qed
qed

lemma scan_markers_obs:
  "scan_markers sam sid d reads positions = Inr (reads', positions') \<Longrightarrow> sam sid = Inr cols \<Longrightarrow>
     positions' = positions @ map m_pos d
     \<and> fst ` set (obs_of reads' k) =
         fst ` set (obs_of reads k) \<union> {p \<in> set (map m_pos d). observed cols k p}
     \<and> snd ` set (obs_of reads' k) \<subseteq> snd ` set (obs_of reads k) \<union> bases cols
     \<and> (distinct (map fst reads) \<longrightarrow> distinct (map fst reads'))"
proof (induction d arbitrary: reads positions)
  case Nil
  then show ?case by simp
next
  case (Cons m d)
  from Cons.prems obtain reads1 where
    sc: "scan_columns (m_pos m) cols reads = Inr reads1" and
    sm: "scan_markers sam sid d reads1 (positions @ [m_pos m]) = Inr (reads', positions')"
    by (auto split: sum.splits)
  note h1 = scan_columns_obs [OF sc, of k]
  note h2 = Cons.IH [OF sm Cons.prems(2)]
  show ?case
  proof (intro conjI)
    show "positions' = positions @ map m_pos (m # d)" using h2 by simp
    show "fst ` set (obs_of reads' k) =
         fst ` set (obs_of reads k) \<union> {p \<in> set (map m_pos (m # d)). observed cols k p}"
      using h1 h2 by (auto split: if_splits)
    show "snd ` set (obs_of reads' k) \<subseteq> snd ` set (obs_of reads k) \<union> bases cols"
      using h1 h2 by blast
    show "distinct (map fst reads) \<longrightarrow> distinct (map fst reads')"
      using h1 h2 by blast
  qed
qed

lemma py_index_ok:
  "py_index xs p = Inr i \<Longrightarrow> i < length xs \<and> xs ! i = p"
proof (induction xs arbitrary: i)
  case Nil
  then show ?case by simp
next
  case (Cons x xs)
  then show ?case by (auto split: if_splits sum.splits)
qed

lemma py_index_mem: "p \<in> set xs \<Longrightarrow> \<exists>i. py_index xs p = Inr i"
  by (induction xs) auto

lemma py_index_distinct:
  "distinct xs \<Longrightarrow> i < length xs \<Longrightarrow> py_index xs (xs ! i) = Inr i"
proof (induction xs arbitrary: i)
  case Nil
  then show ?case by simp
next
  case (Cons x xs)
  show ?case
  proof (cases i)
    case 0
    then show ?thesis by simp
  next
    case (Suc j)
    then have "xs ! j \<in> set xs" using Cons.prems(2) by simp
    then have "x \<noteq> xs ! j" using Cons.prems(1) by auto
    then show ?thesis using Suc Cons by simp
  qed
qed

lemma fill_hap_slots:
  "fst ` set obs \<subseteq> set positions \<Longrightarrow> length hap = length positions \<Longrightarrow>
     \<exists>hap'. fill_hap positions obs hap = Inr hap' \<and> length hap' = length hap \<and>
       (\<forall>i < length hap.
          if (\<exists>p \<in> fst ` set obs. py_index positions p = Inr i)
          then hap' ! i \<in> snd ` set obs else hap' ! i = hap ! i)"
proof (induction obs arbitrary: hap)
  case Nil
  then show ?case by simp
next
  case (Cons pb obs)
  obtain p b where pb: "pb = (p, b)" by (cases pb)
  have "p \<in> set positions" using Cons.prems(1) pb by simp
  from py_index_mem [OF this] obtain i0 where i0: "py_index positions p = Inr i0" ..
  have lt: "i0 < length hap" using py_index_ok [OF i0] Cons.prems(2) by simp
  have sub: "fst ` set obs \<subseteq> set positions" using Cons.prems(1) by auto
  have len: "length (hap[i0 := b]) = length positions" using Cons.prems(2) by simp
  from Cons.IH [OF sub len] obtain hap' where
    f: "fill_hap positions obs (hap[i0 := b]) = Inr hap'" and
    l: "length hap' = length hap" and
    s: "\<forall>i < length hap.
          if (\<exists>p \<in> fst ` set obs. py_index positions p = Inr i)
          then hap' ! i \<in> snd ` set obs else hap' ! i = hap[i0 := b] ! i"
    by auto
  have ff: "fill_hap positions (pb # obs) hap = Inr hap'"
    using f i0 lt pb by simp
  have "if (\<exists>q \<in> fst ` set (pb # obs). py_index positions q = Inr i)
        then hap' ! i \<in> snd ` set (pb # obs) else hap' ! i = hap ! i"
    if i: "i < length hap" for i
  proof (cases "\<exists>q \<in> fst ` set obs. py_index positions q = Inr i")
    case True
    then have "hap' ! i \<in> snd ` set obs" using s i by simp
    moreover have "\<exists>q \<in> fst ` set (pb # obs). py_index positions q = Inr i" using True by auto
    ultimately show ?thesis by simp
  next
    case False
    then have e: "hap' ! i = hap[i0 := b] ! i" using s i by simp
    show ?thesis
    proof (cases "i = i0")
      case True
      then have "hap' ! i = b" using e lt by simp
      moreover have "\<exists>q \<in> fst ` set (pb # obs). py_index positions q = Inr i"
        using True i0 pb by auto
      ultimately show ?thesis using pb by simp
    next
      case ne: False
      then have "hap' ! i = hap ! i" using e by simp
      moreover have "\<not> (\<exists>q \<in> fst ` set (pb # obs). py_index positions q = Inr i)"
        using False ne i0 pb by auto
      ultimately show ?thesis by simp
    qed
  qed
  then show ?case using ff l by blast
qed

lemma read_hap_slots:
  assumes "fst ` set obs \<subseteq> set positions"
    and "CHR ''-'' \<notin> snd ` set obs"
  shows "(\<exists>hap. read_hap (length positions) positions obs = Inr (Some hap) \<and>
             length hap = length positions)
           \<longleftrightarrow> (\<forall>i < length positions. \<exists>p \<in> fst ` set obs. py_index positions p = Inr i)"
    and "read_hap (length positions) positions obs = Inr None
           \<longleftrightarrow> \<not> (\<forall>i < length positions. \<exists>p \<in> fst ` set obs. py_index positions p = Inr i)"
proof -
  let ?n = "length positions"
  let ?hap0 = "replicate ?n CHR ''-''"
  have "length ?hap0 = length positions" by simp
  from fill_hap_slots [OF assms(1) this] obtain hap' where
    f: "fill_hap positions obs ?hap0 = Inr hap'" and
    l: "length hap' = ?n" and
    s: "\<forall>i < ?n.
          if (\<exists>p \<in> fst ` set obs. py_index positions p = Inr i)
          then hap' ! i \<in> snd ` set obs else hap' ! i = ?hap0 ! i"
    by auto
  have dash: "CHR ''-'' \<in> set hap' \<longleftrightarrow>
      \<not> (\<forall>i < ?n. \<exists>p \<in> fst ` set obs. py_index positions p = Inr i)"
  proof
    assume "CHR ''-'' \<in> set hap'"
    then obtain i where i: "i < ?n" and h: "hap' ! i = CHR ''-''"
      using l by (auto simp: in_set_conv_nth)
    have "\<not> (\<exists>p \<in> fst ` set obs. py_index positions p = Inr i)"
    proof
      assume "\<exists>p \<in> fst ` set obs. py_index positions p = Inr i"
      then have "hap' ! i \<in> snd ` set obs" using s i by simp
      then show False using h assms(2) by simp
    qed
    then show "\<not> (\<forall>i < ?n. \<exists>p \<in> fst ` set obs. py_index positions p = Inr i)"
      using i by blast
  next
    assume "\<not> (\<forall>i < ?n. \<exists>p \<in> fst ` set obs. py_index positions p = Inr i)"
    then obtain i where i: "i < ?n" and
      n: "\<not> (\<exists>p \<in> fst ` set obs. py_index positions p = Inr i)" by blast
    then have "hap' ! i = ?hap0 ! i" using s by simp
    then have "hap' ! i = CHR ''-''" using i by simp
    then show "CHR ''-'' \<in> set hap'" using i l by (metis nth_mem)
  qed
  have r: "read_hap ?n positions obs = (if CHR ''-'' \<in> set hap' then Inr None else Inr (Some hap'))"
    by (simp add: read_hap_def f)
  show "(\<exists>hap. read_hap ?n positions obs = Inr (Some hap) \<and> length hap = ?n)
           \<longleftrightarrow> (\<forall>i < ?n. \<exists>p \<in> fst ` set obs. py_index positions p = Inr i)"
    unfolding r using dash l by auto
  show "read_hap ?n positions obs = Inr None
           \<longleftrightarrow> \<not> (\<forall>i < ?n. \<exists>p \<in> fst ` set obs. py_index positions p = Inr i)"
    unfolding r using dash by auto
qed

lemma slots_distinct:
  assumes "distinct positions"
  shows "(\<forall>i < length positions. \<exists>p \<in> S. py_index positions p = Inr i)
           \<longleftrightarrow> set positions \<subseteq> S"
proof
  assume a: "\<forall>i < length positions. \<exists>p \<in> S. py_index positions p = Inr i"
  show "set positions \<subseteq> S"
  proof
    fix q assume "q \<in> set positions"
    then obtain i where i: "i < length positions" and q: "positions ! i = q"
      by (auto simp: in_set_conv_nth)
    then obtain p where p: "p \<in> S" and pi: "py_index positions p = Inr i" using a by blast
    have "positions ! i = p" using py_index_ok [OF pi] by simp
    then show "q \<in> S" using p q by simp
  qed
next
  assume a: "set positions \<subseteq> S"
  show "\<forall>i < length positions. \<exists>p \<in> S. py_index positions p = Inr i"
  proof (intro allI impI)
    fix i assume i: "i < length positions"
    then have "positions ! i \<in> S" using a by auto
    moreover have "py_index positions (positions ! i) = Inr i"
      using assms i by (rule py_index_distinct)
    ultimately show "\<exists>p \<in> S. py_index positions p = Inr i" by blast
  qed
qed

lemma collect_haps_ok:
  "\<forall>read \<in> set rs. \<exists>r. read_hap n positions read = Inr r \<Longrightarrow>
     \<exists>hs. collect_haps n positions rs acc = Inr hs \<and>
       set hs = set acc \<union> {hap. \<exists>read \<in> set rs. read_hap n positions read = Inr (Some hap)}"
proof (induction rs arbitrary: acc)
  case Nil
  then show ?case by simp
next
  case (Cons read rs)
  then obtain r where r: "read_hap n positions read = Inr r" by auto
  have rest: "\<forall>read \<in> set rs. \<exists>r. read_hap n positions read = Inr r" using Cons.prems by simp
  show ?case
  proof (cases r)
    case None
    from Cons.IH [OF rest, of acc] obtain hs where
      "collect_haps n positions rs acc = Inr hs"
      "set hs = set acc \<union> {hap. \<exists>read \<in> set rs. read_hap n positions read = Inr (Some hap)}"
      by blast
    then show ?thesis using r None by auto
  next
    case (Some hap)
    from Cons.IH [OF rest, of "acc @ [hap]"] obtain hs where
      "collect_haps n positions rs (acc @ [hap]) = Inr hs"
      "set hs = set (acc @ [hap]) \<union> {hap. \<exists>read \<in> set rs. read_hap n positions read = Inr (Some hap)}"
      by blast
    then show ?thesis using r Some by auto
  qed
qed

lemma obs_of_Nil: "obs_of [] k = []"
  by (simp add: obs_of_def)

lemma obs_of_mem: "distinct (map fst reads) \<Longrightarrow> (rname, obs) \<in> set reads \<Longrightarrow> obs_of reads rname = obs"
  by (simp add: obs_of_def)

lemma scan_markers_reads:
  assumes "sam sid = Inr cols"
    and "scan_markers sam sid d [] [] = Inr (reads, positions)"
    and "(rname, obs) \<in> set reads"
  shows "positions = map m_pos d"
    and "fst ` set obs = {p \<in> set (map m_pos d). observed cols rname p}"
    and "snd ` set obs \<subseteq> bases cols"
proof -
  note h = scan_markers_obs [OF assms(2) assms(1), of rname]
  have "distinct (map fst reads)" using h by simp
  then have o: "obs_of reads rname = obs" using assms(3) by (rule obs_of_mem)
  show "positions = map m_pos d" using h by simp
  show "fst ` set obs = {p \<in> set (map m_pos d). observed cols rname p}"
    using h unfolding o by (simp add: obs_of_Nil)
  show "snd ` set obs \<subseteq> bases cols"
    using h unfolding o by (simp add: obs_of_Nil)
qed

lemma read_hap_complete:
  assumes "sam sid = Inr cols"
    and "scan_markers sam sid d [] [] = Inr (reads, positions)"
    and "distinct (map m_pos d)"
    and "CHR ''-'' \<notin> bases cols"
    and "(rname, obs) \<in> set reads"
  shows "(\<exists>hap. read_hap (length d) positions obs = Inr (Some hap) \<and> length hap = length d)
           \<longleftrightarrow> (\<forall>m \<in> set d. observed cols rname (m_pos m))"
    and "read_hap (length d) positions obs = Inr None
           \<longleftrightarrow> \<not> (\<forall>m \<in> set d. observed cols rname (m_pos m))"
proof -
  note r = scan_markers_reads [OF assms(1,2,5)]
  have len: "length positions = length d" using r(1) by simp
  have sub: "fst ` set obs \<subseteq> set positions" using r(1,2) by auto
  have nd: "CHR ''-'' \<notin> snd ` set obs" using r(3) assms(4) by blast
  have dp: "distinct positions" using r(1) assms(3) by simp
  have cov: "set positions \<subseteq> fst ` set obs \<longleftrightarrow> (\<forall>m \<in> set d. observed cols rname (m_pos m))"
    unfolding r(2) r(1) by auto
  note s = read_hap_slots [OF sub nd]
  have eq: "(\<forall>i < length positions. \<exists>p \<in> fst ` set obs. py_index positions p = Inr i)
      \<longleftrightarrow> (\<forall>m \<in> set d. observed cols rname (m_pos m))"
    using slots_distinct [OF dp, of "fst ` set obs"] cov by (rule trans)
  show "(\<exists>hap. read_hap (length d) positions obs = Inr (Some hap) \<and> length hap = length d)
           \<longleftrightarrow> (\<forall>m \<in> set d. observed cols rname (m_pos m))"
    using s(1) eq unfolding len by (rule trans)
  show "read_hap (length d) positions obs = Inr None
           \<longleftrightarrow> \<not> (\<forall>m \<in> set d. observed cols rname (m_pos m))"
    unfolding s(2) [unfolded len] eq [unfolded len] by (rule refl)
qed

lemma sample_haplotypes_set:
  assumes "sam sid = Inr cols"
    and "scan_markers sam sid d [] [] = Inr (reads, positions)"
  shows "\<exists>haplotypes. sample_haplotypes sam sid d = Inr haplotypes \<and>
           set haplotypes =
             {hap. \<exists>read \<in> set (map snd reads). read_hap (length d) positions read = Inr (Some hap)}"
proof -
  have "\<exists>r. read_hap (length d) positions read = Inr r" if "read \<in> set (map snd reads)" for read
  proof -
    from that obtain rname where m: "(rname, read) \<in> set reads" by auto
    note r = scan_markers_reads [OF assms(1,2) m]
    have sub: "fst ` set read \<subseteq> set positions" using r(1,2) by auto
    have "length (replicate (length d) CHR ''-'') = length positions" using r(1) by simp
    from fill_hap_slots [OF sub this] obtain hap' where
      "fill_hap positions read (replicate (length d) CHR ''-'') = Inr hap'" by blast
    then show ?thesis by (simp add: read_hap_def)
  qed
  then have "\<forall>read \<in> set (map snd reads). \<exists>r. read_hap (length d) positions read = Inr r"
    by blast
  from collect_haps_ok [OF this, of "[]"] obtain hs where
    c: "collect_haps (length d) positions (map snd reads) [] = Inr hs" and
    s: "set hs = set [] \<union>
          {hap. \<exists>read \<in> set (map snd reads). read_hap (length d) positions read = Inr (Some hap)}"
    by blast
  have "sample_haplotypes sam sid d = Inr (remdups hs)"
    by (simp add: sample_haplotypes_def assms(2) c)
  then show ?thesis using s by simp
qed
lemma marker_lt_100b_100: "marker_lt marker_100b marker_100"
  by (simp add: marker_lt_def marker_100_def marker_100b_def dict_eq_def dict_compare_def)

lemma not_marker_lt_100_100b: "\<not> marker_lt marker_100 marker_100b"
  by (simp add: marker_lt_def marker_100_def marker_100b_def dict_eq_def dict_compare_def)

lemma dup_row1_is: "process_row 4 2 (1 / 2) [''ctg1'', ''100'', ''A'', ''G'', ''3'', ''3'', ''1'', ''0''] = Inr (Some marker_100)"
  by (rule two_row2_marker)

lemma dup_row2_is: "process_row 4 2 (1 / 2) [''ctg1'', ''100'', ''A'', ''G'', ''3'', ''3'', ''3'', ''1''] = Inr (Some marker_100b)"
  by (simp add: int_100 Counter_def counter_get_def truediv_2_3 truediv_3_4 numeral_2_eq_2 numeral_3_eq_3
        marker_100b_def del: py_int.simps)

lemma dup_select_is: "select_markers (1 / 2) (1 / 2) dup_matrix = Inr [marker_100b, marker_100]"
  unfolding select_markers_def dup_matrix_def
  by (simp add: dup_header dup_row1 dup_row2 py_float_4 py_float_2 round_2 dup_row1_is dup_row2_is
        marker_lt_100b_100 not_marker_lt_100_100b del: process_row.simps)

lemma dup_scan:
  "scan_markers one_read ''ctg1'' [marker_100b, marker_100] [] [] =
     Inr ([(''r1'', [(100, CHR ''A''), (100, CHR ''A'')])], [100, 100])"
  by (simp add: one_read_def one_read_cols_def marker_100_def marker_100b_def py_getitem_def)

lemma dup_read_hap: "read_hap 2 [100, 100] [(100, CHR ''A''), (100, CHR ''A'')] = Inr None"
  by (simp add: read_hap_def numeral_2_eq_2)

lemma dup_sample: "sample_haplotypes one_read ''ctg1'' [marker_100b, marker_100] = Inr []"
  by (simp add: sample_haplotypes_def dup_scan dup_read_hap [unfolded numeral_2_eq_2] del: scan_markers.simps)

lemma dup_groupby: "groupby m_seqid [marker_100b, marker_100] = [(''ctg1'', [marker_100b, marker_100])]"
  by (simp add: marker_100_def marker_100b_def)

lemma dup_resolve: "resolve (1 / 2) (1 / 2) dup_matrix [one_read] = ([Summary ''ctg1'' []], None)"
  by (simp add: resolve_def dup_select_is dup_groupby dup_sample HaplotypeResolver_def
        Counter_def Counter_update_def solve_def
        del: groupby.simps)
lemma two_scan:
  "scan_markers two_reads ''ctg1'' [marker_100, marker_200] [] [] =
     Inr ([(''r1'', [(100, CHR ''A''), (200, CHR ''T'')]), (''r2'', [(100, CHR ''G'')])], [100, 200])"
  by (simp add: two_reads_def two_reads_cols_def marker_100_def marker_200_def py_getitem_def)

text \<open>
  \<^bold>\<open>C2, as stated, fails.\<close> The two selected rows of \<open>dup_matrix\<close> give a region
  with two markers at position 100. The read \<open>r1\<close> of the sample \<open>one_read\<close> has a
  base observation at the position of each of the two markers, yet
  \<open>positions.index\<close> sends both observations to slot 0, slot 1 keeps the sentinel, the
  read is discarded and the sample's haplotype set is empty.
\<close>

theorem covered_read_discarded:
  "observed one_read_cols ''r1'' (m_pos marker_100b) \<and>
   observed one_read_cols ''r1'' (m_pos marker_100) \<and>
   select_markers (1 / 2) (1 / 2) dup_matrix = Inr [marker_100b, marker_100] \<and>
   scan_markers one_read ''ctg1'' [marker_100b, marker_100] [] [] =
     Inr ([(''r1'', [(100, CHR ''A''), (100, CHR ''A'')])], [100, 100]) \<and>
   read_hap 2 [100, 100] [(100, CHR ''A''), (100, CHR ''A'')] = Inr None \<and>
   sample_haplotypes one_read ''ctg1'' [marker_100b, marker_100] = Inr [] \<and>
   resolve (1 / 2) (1 / 2) dup_matrix [one_read] = ([Summary ''ctg1'' []], None)"
proof -
  have "observed one_read_cols ''r1'' (m_pos marker_100b)"
    by (simp add: observed_def one_read_cols_def marker_100b_def)
  moreover have "observed one_read_cols ''r1'' (m_pos marker_100)"
    by (simp add: observed_def one_read_cols_def marker_100_def)
  ultimately show ?thesis
    using dup_select_is dup_scan dup_read_hap dup_sample dup_resolve by (intro conjI)
qed

text \<open>
  \<^bold>\<open>C2, amended.\<close> In a region whose markers have pairwise different positions, with
  read sequences free of the character \<open>-\<close>, and when the scan of the pileups raises
  nothing: for every read with an entry in \<open>reads\<close>, a haplotype string of length
  \<open>M\<close> is appended exactly when every marker position of the region has an observation
  of that read, and the read is skipped exactly when some position has none; a read whose
  filled array still holds \<open>-\<close> is skipped; and the sample's haplotype set consists of
  exactly the strings appended for its reads.
\<close>

theorem complete_reads_only:
  assumes "sam sid = Inr cols"
    and "scan_markers sam sid d [] [] = Inr (reads, positions)"
    and "distinct (map m_pos d)"
    and "CHR ''-'' \<notin> bases cols"
    and "(rname, obs) \<in> set reads"
  shows "((\<exists>hap. read_hap (length d) positions obs = Inr (Some hap) \<and> length hap = length d)
            \<longleftrightarrow> (\<forall>m \<in> set d. observed cols rname (m_pos m)))
       \<and> (read_hap (length d) positions obs = Inr None
            \<longleftrightarrow> \<not> (\<forall>m \<in> set d. observed cols rname (m_pos m)))
       \<and> (\<forall>hap. fill_hap positions obs (replicate (length d) CHR ''-'') = Inr hap \<and> CHR ''-'' \<in> set hap
            \<longrightarrow> read_hap (length d) positions obs = Inr None)
       \<and> (\<exists>haplotypes. sample_haplotypes sam sid d = Inr haplotypes \<and>
            set haplotypes =
              {hap. \<exists>read \<in> set (map snd reads). read_hap (length d) positions read = Inr (Some hap)})"
proof (intro conjI)
  show "(\<exists>hap. read_hap (length d) positions obs = Inr (Some hap) \<and> length hap = length d)
            \<longleftrightarrow> (\<forall>m \<in> set d. observed cols rname (m_pos m))"
    using assms by (rule read_hap_complete(1))
  show "read_hap (length d) positions obs = Inr None
            \<longleftrightarrow> \<not> (\<forall>m \<in> set d. observed cols rname (m_pos m))"
    using assms by (rule read_hap_complete(2))
  show "\<forall>hap. fill_hap positions obs (replicate (length d) CHR ''-'') = Inr hap \<and> CHR ''-'' \<in> set hap
            \<longrightarrow> read_hap (length d) positions obs = Inr None"
    by (simp add: read_hap_def)
  show "\<exists>haplotypes. sample_haplotypes sam sid d = Inr haplotypes \<and>
            set haplotypes =
              {hap. \<exists>read \<in> set (map snd reads). read_hap (length d) positions read = Inr (Some hap)}"
    using assms(1,2) by (rule sample_haplotypes_set)
qed

theorem complete_reads_only_witness:
  "two_reads ''ctg1'' = Inr two_reads_cols \<and>
   scan_markers two_reads ''ctg1'' [marker_100, marker_200] [] [] =
     Inr ([(''r1'', [(100, CHR ''A''), (200, CHR ''T'')]), (''r2'', [(100, CHR ''G'')])], [100, 200]) \<and>
   distinct (map m_pos [marker_100, marker_200]) \<and>
   CHR ''-'' \<notin> bases two_reads_cols \<and>
   observed two_reads_cols ''r1'' (m_pos marker_100) \<and>
   observed two_reads_cols ''r1'' (m_pos marker_200) \<and>
   (\<exists>hap. read_hap (length [marker_100, marker_200]) [100, 200] [(100, CHR ''A''), (200, CHR ''T'')]
             = Inr (Some hap) \<and> length hap = length [marker_100, marker_200]) \<and>
   \<not> observed two_reads_cols ''r2'' (m_pos marker_200) \<and>
   read_hap (length [marker_100, marker_200]) [100, 200] [(100, CHR ''G'')] = Inr None"
proof -
  let ?reads = "[(''r1'', [(100, CHR ''A''), (200, CHR ''T'')]), (''r2'', [(100, CHR ''G'')])]"
  have a: "two_reads ''ctg1'' = Inr two_reads_cols" by (simp add: two_reads_def)
  have d: "distinct (map m_pos [marker_100, marker_200])"
    by (simp add: marker_100_def marker_200_def)
  have b: "CHR ''-'' \<notin> bases two_reads_cols"
    by (simp add: bases_def two_reads_cols_def)
  have m1: "(''r1'', [(100, CHR ''A''), (200, CHR ''T'')]) \<in> set ?reads" by simp
  have m2: "(''r2'', [(100, CHR ''G'')]) \<in> set ?reads" by simp
  have o1: "observed two_reads_cols ''r1'' (m_pos marker_100)"
    by (simp add: observed_def two_reads_cols_def marker_100_def)
  have o2: "observed two_reads_cols ''r1'' (m_pos marker_200)"
    by (simp add: observed_def two_reads_cols_def marker_200_def)
  have o3: "\<not> observed two_reads_cols ''r2'' (m_pos marker_200)"
    by (simp add: observed_def two_reads_cols_def marker_200_def)
  have all1: "\<forall>m \<in> set [marker_100, marker_200]. observed two_reads_cols ''r1'' (m_pos m)"
    using o1 o2 by simp
  have nall2: "\<not> (\<forall>m \<in> set [marker_100, marker_200]. observed two_reads_cols ''r2'' (m_pos m))"
    using o3 by simp
  note t1 = complete_reads_only [OF a two_scan d b m1]
  note t2 = complete_reads_only [OF a two_scan d b m2]
  have h1: "\<exists>hap. read_hap (length [marker_100, marker_200]) [100, 200] [(100, CHR ''A''), (200, CHR ''T'')]
             = Inr (Some hap) \<and> length hap = length [marker_100, marker_200]"
    using conjunct1 [OF t1] all1 by (rule iffD2)
  have h2: "read_hap (length [marker_100, marker_200]) [100, 200] [(100, CHR ''G'')] = Inr None"
    using conjunct1 [OF conjunct2 [OF t2]] nall2 by (rule iffD2)
  show ?thesis
    using a two_scan d b o1 o2 h1 o3 h2 by (intro conjI)
qed

end
